theory Spec2Isabelle
  imports Complex_Main
begin

section \<open>Capture controller: data model\<close>

text \<open>
  The component \<open>NightWalkCanvas\<close> of \<open>night-walk-canvas.tsx\<close> keeps its capture
  state in React state (\<open>recorderState\<close>, \<open>downloadUrl\<close>, \<open>message\<close>) and in refs
  (\<open>canvasRef\<close>, \<open>recorderRef\<close>, \<open>pendingTimeoutRef\<close>). The browser objects it
  drives (\<open>MediaRecorder\<close>, timers, object URLs) are written out as explicit stores.
\<close>

datatype RecorderState = idle | recording

text \<open>The \<open>state\<close> attribute of a \<open>MediaRecorder\<close> (\<open>'inactive' | 'recording' | 'paused'\<close>).\<close>

datatype RecordingState = mr_inactive | mr_recording | mr_paused

text \<open>A \<open>Blob\<close>: its bytes and its MIME type; \<open>blob.size\<close> is the number of bytes.\<close>

datatype blob = Blob (bytes: "nat list") (mime: string)

definition blob_size :: "blob \<Rightarrow> nat" where
  "blob_size b = length (bytes b)"

text \<open>\<open>new Blob(parts, { type })\<close> concatenates the parts in the order of the array.\<close>

definition new_Blob :: "blob list \<Rightarrow> string \<Rightarrow> blob" where
  "new_Blob parts ty = Blob (concat (map bytes parts)) ty"

text \<open>
  One \<open>MediaRecorder\<close> object together with the \<open>chunks\<close> array its handlers close
  over. \<open>stop_task_queued\<close> is the task that \<open>stop()\<close> queues (it fires
  \<open>dataavailable\<close>, then \<open>stop\<close>). \<open>onstop_calls\<close> is bookkeeping that is not in
  the source: it counts the invocations of the \<open>onstop\<close> handler of this recorder.
\<close>

record MediaRecorder =
  mr_state :: RecordingState
  chunks :: "blob list"
  stop_task_queued :: bool
  onstop_calls :: nat

datatype HTMLCanvasElement = Canvas (has_captureStream: bool)

type_synonym url = nat

text \<open>
  The component and the browser stores it works on. \<open>recorders\<close> is the heap of
  \<open>MediaRecorder\<close> objects (a recorder is named by its index); \<open>timers\<close> holds the
  armed \<open>setTimeout\<close> callbacks as pairs of the handle and the recorder the callback
  closes over; \<open>created\<close> and \<open>revoked\<close> log the calls of
  \<open>URL.createObjectURL\<close> and \<open>URL.revokeObjectURL\<close>.
\<close>

record component =
  canvasRef :: "HTMLCanvasElement option"
  recorderRef :: "nat option"
  pendingTimeoutRef :: "nat option"
  recorderState :: RecorderState
  downloadUrl :: "url option"
  message :: string
  recorders :: "MediaRecorder list"
  timers :: "(nat \<times> nat) list"
  timer_count :: nat
  created :: "(url \<times> blob) list"
  revoked :: "url list"

definition msg_initial :: string where
  "msg_initial = ''Enjoy the nighttime walk. Record a clip when you are ready.''"

definition msg_unsupported :: string where
  "msg_unsupported = ''Recording isn'' @ [CHR 0x27] @ ''t supported in this browser.''"

text \<open>The ellipsis of the source text is written as its three UTF-8 bytes.\<close>

definition msg_progress :: string where
  "msg_progress = ''Recording in progress'' @ [CHR 0xE2, CHR 0x80, CHR 0xA6]
     @ '' capturing a 10 second loop.''"

definition msg_no_data :: string where
  "msg_no_data = ''No data captured. Try recording again.''"

definition msg_ready :: string where
  "msg_ready = ''Clip ready! Use the download button to save your video.''"

definition msg_failed :: string where
  "msg_failed = ''Recording failed. Please try again or use a different browser.''"

definition msg_unavailable :: string where
  "msg_unavailable = ''Recording is unavailable. Check browser support for MediaRecorder.''"

text \<open>The component after mounting on a canvas (or on none).\<close>

definition mount :: "HTMLCanvasElement option \<Rightarrow> component" where
  "mount cv = \<lparr> canvasRef = cv, recorderRef = None, pendingTimeoutRef = None,
     recorderState = idle, downloadUrl = None, message = msg_initial,
     recorders = [], timers = [], timer_count = 0, created = [], revoked = [] \<rparr>"

section \<open>Capture controller: browser operations\<close>

text \<open>
  \<open>MediaRecorder.stop()\<close> as the MediaStream Recording specification has it: on an
  inactive recorder it does nothing; otherwise it inactivates the recorder and queues
  the task that fires \<open>dataavailable\<close> and \<open>stop\<close>.
\<close>

definition mr_stop :: "nat \<Rightarrow> component \<Rightarrow> component" where
  "mr_stop r s =
     (if r < length (recorders s) \<and> mr_state (recorders s ! r) \<noteq> mr_inactive
      then s\<lparr>recorders := (recorders s)[r := (recorders s ! r)
             \<lparr>mr_state := mr_inactive, stop_task_queued := True\<rparr>]\<rparr>
      else s)"

text \<open>\<open>MediaRecorder.start()\<close> on the recorder just constructed.\<close>

definition mr_start :: "nat \<Rightarrow> component \<Rightarrow> component" where
  "mr_start r s =
     (if r < length (recorders s)
      then s\<lparr>recorders := (recorders s)[r := (recorders s ! r)\<lparr>mr_state := mr_recording\<rparr>]\<rparr>
      else s)"

definition clearTimeout :: "nat \<Rightarrow> component \<Rightarrow> component" where
  "clearTimeout h s = s\<lparr>timers := filter (\<lambda>t. fst t \<noteq> h) (timers s)\<rparr>"

definition revokeObjectURL :: "url \<Rightarrow> component \<Rightarrow> component" where
  "revokeObjectURL u s = s\<lparr>revoked := revoked s @ [u]\<rparr>"

section \<open>Capture controller: handlers\<close>

definition setMessage :: "string \<Rightarrow> component \<Rightarrow> component" where
  "setMessage m s = s\<lparr>message := m\<rparr>"

definition setRecorderState :: "RecorderState \<Rightarrow> component \<Rightarrow> component" where
  "setRecorderState v s = s\<lparr>recorderState := v\<rparr>"

text \<open>\<open>recorder.ondataavailable\<close>: a chunk is pushed only when its size is positive.\<close>

definition ondataavailable :: "nat \<Rightarrow> blob \<Rightarrow> component \<Rightarrow> component" where
  "ondataavailable r data s =
     (if r < length (recorders s) \<and> blob_size data > 0
      then s\<lparr>recorders := (recorders s)[r := (recorders s ! r)
             \<lparr>chunks := chunks (recorders s ! r) @ [data]\<rparr>]\<rparr>
      else s)"

text \<open>
  \<open>recorder.onstop\<close>. The URL minted by \<open>URL.createObjectURL\<close> is fresh: it is the
  number of URLs created before.
\<close>

definition onstop :: "nat \<Rightarrow> component \<Rightarrow> component" where
  "onstop r s =
     (if r < length (recorders s) then
        (let cs = chunks (recorders s ! r);
             s = s\<lparr>recorders := (recorders s)[r := (recorders s ! r)
                   \<lparr>onstop_calls := Suc (onstop_calls (recorders s ! r))\<rparr>]\<rparr>
         in if length cs = 0
            then setRecorderState idle (setMessage msg_no_data s)
            else (let b = new_Blob cs ''video/webm'';
                      u = length (created s);
                      s = s\<lparr>created := created s @ [(u, b)]\<rparr>;
                      s = s\<lparr>downloadUrl := Some u\<rparr>;
                      s = setMessage msg_ready s
                  in setRecorderState idle s))
      else s)"

definition onerror :: "component \<Rightarrow> component" where
  "onerror s = setRecorderState idle (setMessage msg_failed s)"

text \<open>
  What the browser does when \<open>handleRecord\<close> reaches \<open>new MediaRecorder(...)\<close> and
  \<open>recorder.start()\<close>: either call may throw, which the \<open>catch\<close> block handles.
\<close>

datatype start_outcome = ConstructorThrows | StartThrows | Started

definition new_recorder :: MediaRecorder where
  "new_recorder = \<lparr> mr_state = mr_inactive, chunks = [], stop_task_queued = False,
     onstop_calls = 0 \<rparr>"

text \<open>
  \<open>handleRecord\<close>, the click handler of the toggle button. Timer handles are the
  positive integers \<open>setTimeout\<close> returns, in the order of creation.
\<close>

definition handleRecord :: "start_outcome \<Rightarrow> component \<Rightarrow> component" where
  "handleRecord env s =
     (case canvasRef s of
        None \<Rightarrow> s
      | Some canvas \<Rightarrow>
          if \<not> has_captureStream canvas then setMessage msg_unsupported s
          else if recorderState s = recording then
            (case recorderRef s of None \<Rightarrow> s | Some r \<Rightarrow> mr_stop r s)
          else if env = ConstructorThrows then setMessage msg_unavailable s
          else
            (let r = length (recorders s);
                 s = s\<lparr>recorders := recorders s @ [new_recorder]\<rparr>;
                 s = s\<lparr>recorderRef := Some r\<rparr>;
                 s = setRecorderState recording s;
                 s = setMessage msg_progress s;
                 s = (case downloadUrl s of
                        None \<Rightarrow> s
                      | Some current \<Rightarrow> revokeObjectURL current s);
                 s = s\<lparr>downloadUrl := None\<rparr>
             in if env = StartThrows then setMessage msg_unavailable s
                else
                  (let s = mr_start r s;
                       h = Suc (timer_count s);
                       s = s\<lparr>timers := timers s @ [(h, r)], timer_count := h\<rparr>
                   in s\<lparr>pendingTimeoutRef := Some h\<rparr>)))"

text \<open>The callback armed by \<open>window.setTimeout(..., 10_000)\<close> for recorder \<open>r\<close>.\<close>

definition timeout_callback :: "nat \<Rightarrow> component \<Rightarrow> component" where
  "timeout_callback r s = (mr_stop r s)\<lparr>pendingTimeoutRef := None\<rparr>"

text \<open>
  The cleanup of the effect with dependency \<open>[downloadUrl]\<close>. It closes over the
  \<open>downloadUrl\<close> of the render that installed it and reads the refs when it runs.
\<close>

definition effect_cleanup :: "url option \<Rightarrow> component \<Rightarrow> component" where
  "effect_cleanup captured s =
     (let s = (case recorderRef s of
                 None \<Rightarrow> s
               | Some r \<Rightarrow>
                   if r < length (recorders s) \<and> mr_state (recorders s ! r) = mr_recording
                   then mr_stop r s else s);
          s = (case pendingTimeoutRef s of
                 None \<Rightarrow> s
               | Some h \<Rightarrow> if h \<noteq> 0 then clearTimeout h s else s);
          s = (case captured of
                 None \<Rightarrow> s
               | Some u \<Rightarrow> revokeObjectURL u s)
      in s)"

text \<open>
  React re-renders after a handler has run; when \<open>downloadUrl\<close> differs from the
  value of the previous render, the cleanup installed by that render runs.
\<close>

definition commit :: "url option \<Rightarrow> component \<Rightarrow> component" where
  "commit rendered s = (if downloadUrl s \<noteq> rendered then effect_cleanup rendered s else s)"

section \<open>Capture controller: events\<close>

text \<open>
  The events the browser delivers to the mounted component. \<open>StopTask r b\<close> is the
  task queued by \<open>stop()\<close> on recorder \<open>r\<close> (\<open>dataavailable\<close> with the collected
  data \<open>b\<close>, then \<open>stop\<close>); \<open>ErrorTask r b\<close> is the error task of the recording
  specification (inactivate, \<open>error\<close>, \<open>dataavailable\<close>, \<open>stop\<close>).
\<close>

datatype event =
    Click start_outcome
  | Timeout nat
  | DataAvailable nat blob
  | StopTask nat blob
  | ErrorTask nat blob

fun enabled :: "event \<Rightarrow> component \<Rightarrow> bool" where
  "enabled (Click env) s = True"
| "enabled (Timeout h) s = (map_of (timers s) h \<noteq> None)"
| "enabled (DataAvailable r b) s =
     (r < length (recorders s) \<and> mr_state (recorders s ! r) = mr_recording)"
| "enabled (StopTask r b) s =
     (r < length (recorders s) \<and> stop_task_queued (recorders s ! r))"
| "enabled (ErrorTask r b) s =
     (r < length (recorders s) \<and> mr_state (recorders s ! r) = mr_recording)"

definition run_stop_task :: "nat \<Rightarrow> component \<Rightarrow> component" where
  "run_stop_task r s =
     s\<lparr>recorders := (recorders s)[r := (recorders s ! r)\<lparr>stop_task_queued := False\<rparr>]\<rparr>"

definition inactivate :: "nat \<Rightarrow> component \<Rightarrow> component" where
  "inactivate r s =
     s\<lparr>recorders := (recorders s)[r := (recorders s ! r)\<lparr>mr_state := mr_inactive\<rparr>]\<rparr>"

fun fire :: "event \<Rightarrow> component \<Rightarrow> component" where
  "fire (Click env) s = handleRecord env s"
| "fire (Timeout h) s =
     (case map_of (timers s) h of
        None \<Rightarrow> s
      | Some r \<Rightarrow> timeout_callback r (clearTimeout h s))"
| "fire (DataAvailable r b) s = ondataavailable r b s"
| "fire (StopTask r b) s = onstop r (ondataavailable r b (run_stop_task r s))"
| "fire (ErrorTask r b) s = onstop r (ondataavailable r b (onerror (inactivate r s)))"

text \<open>
  One event: the handler runs to completion, then React commits the render. A timer that
  fires leaves the list of armed timers before its callback runs. The states are those of
  the mounted component: unmounting is not an event of the model.
\<close>

definition step :: "event \<Rightarrow> component \<Rightarrow> component option" where
  "step e s = (if enabled e s then Some (commit (downloadUrl s) (fire e s)) else None)"

fun run :: "event list \<Rightarrow> component \<Rightarrow> component option" where
  "run [] s = Some s"
| "run (e # es) s = (case step e s of None \<Rightarrow> None | Some s' \<Rightarrow> run es s')"

inductive reachable :: "HTMLCanvasElement option \<Rightarrow> component \<Rightarrow> bool"
  for cv :: "HTMLCanvasElement option" where
  reachable_mount: "reachable cv (mount cv)"
| reachable_step: "reachable cv s \<Longrightarrow> step e s = Some s' \<Longrightarrow> reachable cv s'"

text \<open>The number of recorders whose session is open (not inactive).\<close>

definition open_sessions :: "component \<Rightarrow> nat" where
  "open_sessions s = length (filter (\<lambda>m. mr_state m \<noteq> mr_inactive) (recorders s))"

section \<open>Capture controller: invariant\<close>

text \<open>
  The facts that hold of every recorder in every reachable state, and the invariant of
  the component. A recorder is \<open>settled\<close> when its session is over: it is inactive
  and no stop task is queued for it. \<open>with_data\<close> and \<open>finish\<close> describe what the
  stop task does to the recorder and to the component.
\<close>

definition recorder_ok :: "MediaRecorder \<Rightarrow> bool" where
  "recorder_ok m \<longleftrightarrow>
     onstop_calls m \<le> 1 \<and> mr_state m \<noteq> mr_paused \<and>
     (stop_task_queued m \<longrightarrow> mr_state m = mr_inactive) \<and>
     (mr_state m \<noteq> mr_inactive \<or> stop_task_queued m \<longrightarrow> onstop_calls m = 0) \<and>
     (\<forall>b \<in> set (chunks m). 0 < blob_size b)"

definition settled :: "MediaRecorder \<Rightarrow> bool" where
  "settled m \<longleftrightarrow> mr_state m = mr_inactive \<and> \<not> stop_task_queued m"

definition inv :: "HTMLCanvasElement option \<Rightarrow> component \<Rightarrow> bool" where
  "inv cv s \<longleftrightarrow>
     canvasRef s = cv \<and>
     recorderRef s = (if recorders s = [] then None else Some (length (recorders s) - 1)) \<and>
     (\<forall>i. Suc i < length (recorders s) \<longrightarrow> settled (recorders s ! i)) \<and>
     (\<forall>i < length (recorders s). recorder_ok (recorders s ! i)) \<and>
     (\<forall>i < length (recorders s). \<not> settled (recorders s ! i) \<longrightarrow> recorderState s = recording) \<and>
     (recorderState s = recording \<longrightarrow> downloadUrl s = None) \<and>
     (recorders s \<noteq> [] \<longrightarrow> (\<exists>c. cv = Some c \<and> has_captureStream c)) \<and>
     (\<forall>t \<in> set (timers s). 0 < fst t \<and> fst t \<le> timer_count s \<and> snd t < length (recorders s)) \<and>
     distinct (map fst (timers s)) \<and>
     (\<forall>h. pendingTimeoutRef s = Some h \<longrightarrow> 0 < h) \<and>
     (recorderState s = recording \<longrightarrow> recorders s \<noteq> []) \<and>
     (\<forall>e \<in> set (created s). 0 < blob_size (snd e) \<and>
        (fst e \<in> set (revoked s) \<or> downloadUrl s = Some (fst e))) \<and>
     (\<forall>u \<in> set (revoked s). u < length (created s)) \<and>
     (\<forall>u. downloadUrl s = Some u \<longrightarrow> u < length (created s))"


definition with_data :: "MediaRecorder \<Rightarrow> blob \<Rightarrow> MediaRecorder" where
  "with_data m b = (if 0 < blob_size b then m\<lparr>chunks := chunks m @ [b]\<rparr> else m)"

definition finish :: "component \<Rightarrow> nat \<Rightarrow> MediaRecorder \<Rightarrow> component" where
  "finish s r m =
     (if chunks m = []
      then s\<lparr>recorders := (recorders s)[r := m], message := msg_no_data,
             recorderState := idle\<rparr>
      else s\<lparr>recorders := (recorders s)[r := m],
             created := created s @ [(length (created s), new_Blob (chunks m) ''video/webm'')],
             downloadUrl := Some (length (created s)), message := msg_ready,
             recorderState := idle\<rparr>)"

section \<open>Renderer: numbers and datasets\<close>

text \<open>
  A JavaScript number is an IEEE 754 double: zero, or \<open>m * 2 ^ e\<close> with an integer
  \<open>m\<close> of magnitude below \<open>2 ^ 53\<close> and \<open>- 1074 \<le> e \<le> 971\<close>. A number is modelled as the real it
  denotes. \<open>fl v\<close> is the double nearest to the real \<open>v\<close>, a tie going to the
  even significand (the rounding of every arithmetic operation of the language): around
  \<open>v\<close> the doubles are the multiples of \<open>2\<close> to the power \<open>ulp_exponent v\<close>.
  \<open>is_double v\<close> says that \<open>v\<close> is a double. Not modelled are \<open>NaN\<close>, the
  infinities and the sign of zero: every number of the renderer derives from finite
  timestamps and stays far below the largest double.
\<close>

definition round_even :: "real \<Rightarrow> int" where
  "round_even v =
     (if v - of_int \<lfloor>v\<rfloor> < 1 / 2 then \<lfloor>v\<rfloor>
      else if 1 / 2 < v - of_int \<lfloor>v\<rfloor> then \<lfloor>v\<rfloor> + 1
      else if even \<lfloor>v\<rfloor> then \<lfloor>v\<rfloor> else \<lfloor>v\<rfloor> + 1)"

definition ulp_exponent :: "real \<Rightarrow> int" where
  "ulp_exponent v = max (\<lfloor>log 2 \<bar>v\<bar>\<rfloor> - 52) (- 1074)"

definition fl :: "real \<Rightarrow> real" where
  "fl v = (if v = 0 then 0
           else of_int (round_even (v / 2 powi ulp_exponent v)) * 2 powi ulp_exponent v)"

definition is_double :: "real \<Rightarrow> bool" where
  "is_double v \<longleftrightarrow> fl v = v \<and> ulp_exponent v \<le> 971"

text \<open>
  The operators \<open>+\<close>, \<open>-\<close>, \<open>*\<close> and \<open>/\<close> round the exact result; a decimal literal
  denotes the double nearest to it (an integer literal below \<open>2 ^ 53\<close> denotes itself, and
  so does the index of a loop). \<open>a % b\<close> is the remainder of the truncating division: it
  has the sign of \<open>a\<close>, and it is computed exactly, the remainder of two doubles being a
  double (lemma \<open>js_rem_exact\<close>). The divisors of the source are the non-zero constants 1400, 336 and 140. Unary
  minus, \<open>Math.abs\<close>, \<open>Math.min\<close> and \<open>Math.max\<close> are exact. \<open>Math.sin\<close> and \<open>Math.cos\<close>
  are approximations the language leaves to the implementation: they are taken as the
  correctly rounded sine and cosine.
\<close>

definition js_lit :: "real \<Rightarrow> real" where
  "js_lit v = fl v"

definition js_add :: "real \<Rightarrow> real \<Rightarrow> real" where
  "js_add a b = fl (a + b)"

definition js_sub :: "real \<Rightarrow> real \<Rightarrow> real" where
  "js_sub a b = fl (a - b)"

definition js_mul :: "real \<Rightarrow> real \<Rightarrow> real" where
  "js_mul a b = fl (a * b)"

definition js_div :: "real \<Rightarrow> real \<Rightarrow> real" where
  "js_div a b = fl (a / b)"

definition js_trunc :: "real \<Rightarrow> int" where
  "js_trunc v = (if 0 \<le> v then \<lfloor>v\<rfloor> else \<lceil>v\<rceil>)"

definition js_rem :: "real \<Rightarrow> real \<Rightarrow> real" where
  "js_rem a b = a - b * of_int (js_trunc (a / b))"

definition Math_PI :: real where
  "Math_PI = fl pi"

definition Math_sin :: "real \<Rightarrow> real" where
  "Math_sin v = fl (sin v)"

definition Math_cos :: "real \<Rightarrow> real" where
  "Math_cos v = fl (cos v)"

definition CANVAS_WIDTH :: real where "CANVAS_WIDTH = 960"
definition CANVAS_HEIGHT :: real where "CANVAS_HEIGHT = 540"
definition WALK_CYCLE_MS :: real where "WALK_CYCLE_MS = 1400"
definition SKYLINE_SEGMENTS :: nat where "SKYLINE_SEGMENTS = 12"
definition STAR_COUNT :: nat where "STAR_COUNT = 120"

record Star =
  star_x :: real
  star_y :: real
  star_size :: real
  twinkleOffset :: real

record SkylineSegment =
  seg_base :: real
  seg_height :: real
  seg_width :: real

text \<open>
  \<open>generateStars\<close> and \<open>generateSkyline\<close>, with the results of the successive
  calls of \<open>Math.random()\<close> passed in as \<open>rnd 0, rnd 1, ...\<close> (each a double in
  \<open>[0, 1)\<close>): star \<open>i\<close> draws \<open>x\<close>, \<open>y\<close>, \<open>size\<close> and \<open>twinkleOffset\<close> in this
  order, segment \<open>i\<close> draws its width, then its height.
\<close>

definition generateStars :: "(nat \<Rightarrow> real) \<Rightarrow> nat \<Rightarrow> Star list" where
  "generateStars rnd count =
     map (\<lambda>i. \<lparr> star_x = rnd (4 * i),
                 star_y = js_mul (rnd (4 * i + 1)) (js_lit 0.5),
                 star_size = js_add (js_lit 0.5) (js_mul (rnd (4 * i + 2)) (js_lit 1.5)),
                 twinkleOffset = js_mul (js_mul (rnd (4 * i + 3)) Math_PI) 2 \<rparr>) [0..<count]"

definition generateSkyline :: "(nat \<Rightarrow> real) \<Rightarrow> SkylineSegment list" where
  "generateSkyline rnd =
     map (\<lambda>i. \<lparr> seg_base = js_div (real i) (real SKYLINE_SEGMENTS),
                 seg_height = js_add (js_lit 0.3) (js_mul (rnd (2 * i + 1)) (js_lit 0.25)),
                 seg_width = js_add (js_lit 0.08) (js_mul (rnd (2 * i)) (js_lit 0.12)) \<rparr>)
       [0..<SKYLINE_SEGMENTS]"

text \<open>
  The two values \<open>draw\<close> derives from the elapsed time (its local constants
  \<open>cycleProgress\<close> and \<open>walkPhase\<close>): the remainder is exact, the division by the
  period rounds.
\<close>

definition cycleProgress_of :: "real \<Rightarrow> real" where
  "cycleProgress_of elapsed = js_div (js_rem elapsed WALK_CYCLE_MS) WALK_CYCLE_MS"

definition walkPhase_of :: "real \<Rightarrow> real" where
  "walkPhase_of elapsed = js_mul (js_mul (cycleProgress_of elapsed) Math_PI) 2"

section \<open>Renderer: the 2D drawing context\<close>

text \<open>
  A \<open>CanvasRenderingContext2D\<close> as far as the renderer uses it: the drawing state
  (what \<open>save\<close> pushes and \<open>restore\<close> pops), the stack of saved states, the current
  path, and the sequence of painting operations issued so far. The current
  transformation matrix is \<open>(a, b, c, d, e, f)\<close>; the arithmetic of the context itself
  (composing matrices, mapping a point to the surface) is taken as exact.
\<close>

type_synonym matrix = "real \<times> real \<times> real \<times> real \<times> real \<times> real"

datatype style =
    Color string
  | Hsl real real real
  | LinearGradient real real real real "(real \<times> string) list"
  | RadialGradient real real real real real real "(real \<times> string) list"

record draw_state =
  transform :: matrix
  fillStyle :: style
  strokeStyle :: style
  globalAlpha :: real
  lineWidth :: real
  lineCap :: string
  lineDash :: "real list"
  lineDashOffset :: real
  shadowColor :: string
  shadowBlur :: real
  globalCompositeOperation :: string

datatype path_cmd =
    MoveTo real real
  | LineTo real real
  | QuadraticCurveTo real real real real
  | Arc real real real real real
  | Ellipse real real real real real real real
  | ClosePath

text \<open>
  What a painting operation reads from the drawing state: the part every operation
  reads, and the part only a stroke reads. A path keeps, with each of its points, the
  matrix in force when the point was added.
\<close>

record compositing =
  c_transform :: matrix
  c_alpha :: real
  c_shadowColor :: string
  c_shadowBlur :: real
  c_operation :: string

record line_style =
  l_strokeStyle :: style
  l_width :: real
  l_cap :: string
  l_dash :: "real list"
  l_dashOffset :: real

datatype paint_op =
    ClearRect matrix real real real real
  | FillRect compositing style real real real real
  | FillPath compositing style "(matrix \<times> path_cmd) list"
  | StrokePath compositing line_style "(matrix \<times> path_cmd) list"

record ctx2d =
  cur :: draw_state
  saved :: "draw_state list"
  path :: "(matrix \<times> path_cmd) list"
  ops :: "paint_op list"

definition compositing_of :: "draw_state \<Rightarrow> compositing" where
  "compositing_of d = \<lparr> c_transform = transform d, c_alpha = globalAlpha d,
     c_shadowColor = shadowColor d, c_shadowBlur = shadowBlur d,
     c_operation = globalCompositeOperation d \<rparr>"

definition line_style_of :: "draw_state \<Rightarrow> line_style" where
  "line_style_of d = \<lparr> l_strokeStyle = strokeStyle d, l_width = lineWidth d,
     l_cap = lineCap d, l_dash = lineDash d, l_dashOffset = lineDashOffset d \<rparr>"

definition m_translate :: "real \<Rightarrow> real \<Rightarrow> matrix \<Rightarrow> matrix" where
  "m_translate tx ty m =
     (case m of (a, b, c, d, e, f) \<Rightarrow> (a, b, c, d, a * tx + c * ty + e, b * tx + d * ty + f))"

definition m_rotate :: "real \<Rightarrow> matrix \<Rightarrow> matrix" where
  "m_rotate t m =
     (case m of (a, b, c, d, e, f) \<Rightarrow>
        (a * cos t + c * sin t, b * cos t + d * sin t,
         c * cos t - a * sin t, d * cos t - b * sin t, e, f))"

definition clearRect :: "ctx2d \<Rightarrow> real \<Rightarrow> real \<Rightarrow> real \<Rightarrow> real \<Rightarrow> ctx2d" where
  "clearRect ctx x y w h = ctx\<lparr>ops := ops ctx @ [ClearRect (transform (cur ctx)) x y w h]\<rparr>"

definition fillRect :: "ctx2d \<Rightarrow> real \<Rightarrow> real \<Rightarrow> real \<Rightarrow> real \<Rightarrow> ctx2d" where
  "fillRect ctx x y w h =
     ctx\<lparr>ops := ops ctx @ [FillRect (compositing_of (cur ctx)) (fillStyle (cur ctx)) x y w h]\<rparr>"

definition fill :: "ctx2d \<Rightarrow> ctx2d" where
  "fill ctx =
     ctx\<lparr>ops := ops ctx @ [FillPath (compositing_of (cur ctx)) (fillStyle (cur ctx)) (path ctx)]\<rparr>"

definition stroke :: "ctx2d \<Rightarrow> ctx2d" where
  "stroke ctx =
     ctx\<lparr>ops := ops ctx
        @ [StrokePath (compositing_of (cur ctx)) (line_style_of (cur ctx)) (path ctx)]\<rparr>"

definition save :: "ctx2d \<Rightarrow> ctx2d" where
  "save ctx = ctx\<lparr>saved := cur ctx # saved ctx\<rparr>"

text \<open>\<open>restore\<close> on an empty stack does nothing.\<close>

definition restore :: "ctx2d \<Rightarrow> ctx2d" where
  "restore ctx = (case saved ctx of [] \<Rightarrow> ctx | d # ds \<Rightarrow> ctx\<lparr>cur := d, saved := ds\<rparr>)"

definition translate :: "ctx2d \<Rightarrow> real \<Rightarrow> real \<Rightarrow> ctx2d" where
  "translate ctx tx ty = ctx\<lparr>cur := (cur ctx)\<lparr>transform := m_translate tx ty (transform (cur ctx))\<rparr>\<rparr>"

definition rotate_ctx :: "ctx2d \<Rightarrow> real \<Rightarrow> ctx2d" where
  "rotate_ctx ctx t = ctx\<lparr>cur := (cur ctx)\<lparr>transform := m_rotate t (transform (cur ctx))\<rparr>\<rparr>"

definition set_fillStyle :: "ctx2d \<Rightarrow> style \<Rightarrow> ctx2d" where
  "set_fillStyle ctx v = ctx\<lparr>cur := (cur ctx)\<lparr>fillStyle := v\<rparr>\<rparr>"

definition set_strokeStyle :: "ctx2d \<Rightarrow> style \<Rightarrow> ctx2d" where
  "set_strokeStyle ctx v = ctx\<lparr>cur := (cur ctx)\<lparr>strokeStyle := v\<rparr>\<rparr>"

definition set_globalAlpha :: "ctx2d \<Rightarrow> real \<Rightarrow> ctx2d" where
  "set_globalAlpha ctx v = ctx\<lparr>cur := (cur ctx)\<lparr>globalAlpha := v\<rparr>\<rparr>"

definition set_lineWidth :: "ctx2d \<Rightarrow> real \<Rightarrow> ctx2d" where
  "set_lineWidth ctx v = ctx\<lparr>cur := (cur ctx)\<lparr>lineWidth := v\<rparr>\<rparr>"

definition set_lineCap :: "ctx2d \<Rightarrow> string \<Rightarrow> ctx2d" where
  "set_lineCap ctx v = ctx\<lparr>cur := (cur ctx)\<lparr>lineCap := v\<rparr>\<rparr>"

definition setLineDash :: "ctx2d \<Rightarrow> real list \<Rightarrow> ctx2d" where
  "setLineDash ctx v = ctx\<lparr>cur := (cur ctx)\<lparr>lineDash := v\<rparr>\<rparr>"

definition set_lineDashOffset :: "ctx2d \<Rightarrow> real \<Rightarrow> ctx2d" where
  "set_lineDashOffset ctx v = ctx\<lparr>cur := (cur ctx)\<lparr>lineDashOffset := v\<rparr>\<rparr>"

definition set_shadowColor :: "ctx2d \<Rightarrow> string \<Rightarrow> ctx2d" where
  "set_shadowColor ctx v = ctx\<lparr>cur := (cur ctx)\<lparr>shadowColor := v\<rparr>\<rparr>"

definition set_shadowBlur :: "ctx2d \<Rightarrow> real \<Rightarrow> ctx2d" where
  "set_shadowBlur ctx v = ctx\<lparr>cur := (cur ctx)\<lparr>shadowBlur := v\<rparr>\<rparr>"

definition set_globalCompositeOperation :: "ctx2d \<Rightarrow> string \<Rightarrow> ctx2d" where
  "set_globalCompositeOperation ctx v =
     ctx\<lparr>cur := (cur ctx)\<lparr>globalCompositeOperation := v\<rparr>\<rparr>"

definition beginPath :: "ctx2d \<Rightarrow> ctx2d" where
  "beginPath ctx = ctx\<lparr>path := []\<rparr>"

definition add_to_path :: "ctx2d \<Rightarrow> path_cmd \<Rightarrow> ctx2d" where
  "add_to_path ctx p = ctx\<lparr>path := path ctx @ [(transform (cur ctx), p)]\<rparr>"

definition moveTo :: "ctx2d \<Rightarrow> real \<Rightarrow> real \<Rightarrow> ctx2d" where
  "moveTo ctx x y = add_to_path ctx (MoveTo x y)"

definition lineTo :: "ctx2d \<Rightarrow> real \<Rightarrow> real \<Rightarrow> ctx2d" where
  "lineTo ctx x y = add_to_path ctx (LineTo x y)"

definition quadraticCurveTo :: "ctx2d \<Rightarrow> real \<Rightarrow> real \<Rightarrow> real \<Rightarrow> real \<Rightarrow> ctx2d" where
  "quadraticCurveTo ctx cpx cpy x y = add_to_path ctx (QuadraticCurveTo cpx cpy x y)"

definition arc :: "ctx2d \<Rightarrow> real \<Rightarrow> real \<Rightarrow> real \<Rightarrow> real \<Rightarrow> real \<Rightarrow> ctx2d" where
  "arc ctx x y r a0 a1 = add_to_path ctx (Arc x y r a0 a1)"

definition ellipse ::
  "ctx2d \<Rightarrow> real \<Rightarrow> real \<Rightarrow> real \<Rightarrow> real \<Rightarrow> real \<Rightarrow> real \<Rightarrow> real \<Rightarrow> ctx2d" where
  "ellipse ctx x y rx ry rot a0 a1 = add_to_path ctx (Ellipse x y rx ry rot a0 a1)"

definition closePath :: "ctx2d \<Rightarrow> ctx2d" where
  "closePath ctx = add_to_path ctx ClosePath"

definition createLinearGradient :: "real \<Rightarrow> real \<Rightarrow> real \<Rightarrow> real \<Rightarrow> style" where
  "createLinearGradient x0 y0 x1 y1 = LinearGradient x0 y0 x1 y1 []"

definition createRadialGradient ::
  "real \<Rightarrow> real \<Rightarrow> real \<Rightarrow> real \<Rightarrow> real \<Rightarrow> real \<Rightarrow> style" where
  "createRadialGradient x0 y0 r0 x1 y1 r1 = RadialGradient x0 y0 r0 x1 y1 r1 []"

fun addColorStop :: "style \<Rightarrow> real \<Rightarrow> string \<Rightarrow> style" where
  "addColorStop (LinearGradient x0 y0 x1 y1 stops) off col =
     LinearGradient x0 y0 x1 y1 (stops @ [(off, col)])"
| "addColorStop (RadialGradient x0 y0 r0 x1 y1 r1 stops) off col =
     RadialGradient x0 y0 r0 x1 y1 r1 (stops @ [(off, col)])"
| "addColorStop g off col = g"

section \<open>Renderer: loops\<close>

text \<open>\<open>array.forEach((item, index) => ...)\<close>, started at index \<open>i\<close>.\<close>

fun forEach_from :: "'a list \<Rightarrow> ('a \<Rightarrow> nat \<Rightarrow> ctx2d \<Rightarrow> ctx2d) \<Rightarrow> nat \<Rightarrow> ctx2d \<Rightarrow> ctx2d" where
  "forEach_from [] body i ctx = ctx"
| "forEach_from (a # as) body i ctx = forEach_from as body (Suc i) (body a i ctx)"

definition forEach :: "'a list \<Rightarrow> ('a \<Rightarrow> nat \<Rightarrow> ctx2d \<Rightarrow> ctx2d) \<Rightarrow> ctx2d \<Rightarrow> ctx2d" where
  "forEach xs body ctx = forEach_from xs body 0 ctx"

text \<open>\<open>for (let i = ...; i < n; i += 1)\<close> on an integer counter.\<close>

function for_count :: "nat \<Rightarrow> nat \<Rightarrow> (nat \<Rightarrow> ctx2d \<Rightarrow> ctx2d) \<Rightarrow> ctx2d \<Rightarrow> ctx2d" where
  "for_count i n body ctx = (if i < n then for_count (Suc i) n body (body i ctx) else ctx)"
  by pat_completeness auto
termination
  by (relation "measure (\<lambda>(i, n, body, ctx). n - i)") auto

text \<open>
  \<open>for (let i = 0; i < bound; i += 8)\<close> on a number. The counter takes the values
  \<open>0, 8, 16, ...\<close> below the bound, the canvas width: integers far below \<open>2 ^ 53\<close>, on
  which \<open>i += 8\<close> is exact.
\<close>

function for_step8 :: "real \<Rightarrow> real \<Rightarrow> (real \<Rightarrow> ctx2d \<Rightarrow> ctx2d) \<Rightarrow> ctx2d \<Rightarrow> ctx2d" where
  "for_step8 i bound body ctx =
     (if i < bound then for_step8 (i + 8) bound body (body i ctx) else ctx)"
  by pat_completeness auto
termination
  by (relation "measure (\<lambda>(i, bound, body, ctx). nat \<lceil>bound - i\<rceil>)") (auto, linarith)

section \<open>Renderer: the drawing routines\<close>

text \<open>The callback of \<open>stars.forEach\<close> in \<open>drawSky\<close>.\<close>

definition drawSky_star :: "real \<Rightarrow> real \<Rightarrow> real \<Rightarrow> Star \<Rightarrow> nat \<Rightarrow> ctx2d \<Rightarrow> ctx2d" where
  "drawSky_star width height elapsed star index ctx =
     (let x = js_add (js_mul (star_x star) width)
                (js_mul (Math_sin (js_add (js_mul elapsed (js_lit 0.00005)) (real index))) 15);
          y = js_mul (star_y star) height;
          twinkle = js_add (js_lit 0.7)
                      (js_mul (Math_sin (js_add (js_mul elapsed (js_lit 0.002))
                                           (twinkleOffset star))) (js_lit 0.3));
          ctx = set_globalAlpha ctx (js_add (js_lit 0.3) (js_mul twinkle (js_lit 0.7)));
          ctx = beginPath ctx;
          ctx = arc ctx x y (js_mul (star_size star) twinkle) 0 (js_mul Math_PI 2)
      in fill ctx)"

definition drawSky :: "ctx2d \<Rightarrow> real \<Rightarrow> real \<Rightarrow> Star list \<Rightarrow> real \<Rightarrow> ctx2d" where
  "drawSky ctx width height stars elapsed =
     (let gradient = createLinearGradient 0 0 0 height;
          gradient = addColorStop gradient 0 ''#020617'';
          gradient = addColorStop gradient (js_lit 0.35) ''#0b183a'';
          gradient = addColorStop gradient 1 ''#0f172a'';
          ctx = set_fillStyle ctx gradient;
          ctx = fillRect ctx 0 0 width height;
          ctx = save ctx;
          ctx = set_fillStyle ctx (Color ''#f8fafc'');
          ctx = forEach stars (drawSky_star width height elapsed) ctx
      in restore ctx)"

text \<open>The distance by which \<open>drawSkyline\<close> shifts the skyline to the left.\<close>

definition skyline_offset :: "real \<Rightarrow> real \<Rightarrow> real" where
  "skyline_offset width elapsed =
     js_rem (js_mul elapsed (js_lit 0.02)) (js_mul width (js_lit 0.35))"

text \<open>The callback of \<open>skyline.forEach\<close> in \<open>drawSkyline\<close> (it ignores the index).\<close>

definition drawSkyline_building ::
  "real \<Rightarrow> real \<Rightarrow> real \<Rightarrow> SkylineSegment \<Rightarrow> nat \<Rightarrow> ctx2d \<Rightarrow> ctx2d" where
  "drawSkyline_building width skylineHeight baseY building index ctx =
     (let segWidth = js_mul (seg_width building) width;
          x = js_mul (seg_base building) width;
          ctx = set_fillStyle ctx (Color ''#0b1c3f'');
          ctx = fillRect ctx x (js_sub baseY (js_mul skylineHeight (seg_height building)))
                  segWidth (js_mul skylineHeight (seg_height building));
          ctx = set_fillStyle ctx (Color ''rgba(148, 197, 255, 0.06)'')
      in fillRect ctx (js_add x (js_mul segWidth (js_lit 0.1)))
           (js_sub baseY (js_mul skylineHeight (seg_height building)))
           (js_mul segWidth (js_lit 0.2)) (js_mul skylineHeight (seg_height building)))"

definition drawSkyline ::
  "ctx2d \<Rightarrow> real \<Rightarrow> real \<Rightarrow> SkylineSegment list \<Rightarrow> real \<Rightarrow> ctx2d" where
  "drawSkyline ctx width height skyline elapsed =
     (let skylineHeight = js_mul height (js_lit 0.5);
          baseY = js_mul height (js_lit 0.65);
          ctx = save ctx;
          ctx = translate ctx (- skyline_offset width elapsed) 0;
          ctx = forEach skyline (drawSkyline_building width skylineHeight baseY) ctx
      in restore ctx)"

definition drawStreet :: "ctx2d \<Rightarrow> real \<Rightarrow> real \<Rightarrow> real \<Rightarrow> ctx2d" where
  "drawStreet ctx width height elapsed =
     (let horizon = js_mul height (js_lit 0.68);
          roadHeight = js_mul height (js_lit 0.32);
          gradient = createLinearGradient 0 horizon 0 height;
          gradient = addColorStop gradient 0 ''#0f172a'';
          gradient = addColorStop gradient 1 ''#020617'';
          ctx = set_fillStyle ctx gradient;
          ctx = fillRect ctx 0 horizon width roadHeight;
          ctx = set_strokeStyle ctx (Color ''rgba(56, 189, 248, 0.35)'');
          ctx = set_lineWidth ctx 2;
          ctx = beginPath ctx;
          ctx = moveTo ctx (- width) height;
          ctx = lineTo ctx (js_mul width 2) (js_add horizon 10);
          ctx = stroke ctx;
          ctx = save ctx;
          ctx = set_strokeStyle ctx (Color ''rgba(96, 165, 250, 0.5)'');
          ctx = set_lineWidth ctx 4;
          ctx = setLineDash ctx [80, 60];
          ctx = set_lineDashOffset ctx (js_rem (js_mul elapsed (js_lit 0.2)) 140);
          ctx = beginPath ctx;
          ctx = moveTo ctx 0 (js_add horizon (js_mul roadHeight (js_lit 0.55)));
          ctx = lineTo ctx width height;
          ctx = stroke ctx
      in restore ctx)"

definition drawLimb :: "ctx2d \<Rightarrow> real \<Rightarrow> real \<Rightarrow> real \<Rightarrow> real \<Rightarrow> bool \<Rightarrow> ctx2d" where
  "drawLimb ctx originX originY len phase isArm =
     (let swing = js_mul (Math_sin phase) (if isArm then js_lit 0.9 else js_lit 1.2);
          kneeLift = js_mul (max 0 (Math_sin (js_add phase (js_div Math_PI 2))))
                       (if isArm then 0 else js_lit 0.6);
          ctx = save ctx;
          ctx = translate ctx originX originY;
          jointY = js_sub (js_mul len (js_lit 0.55)) (js_mul kneeLift 20);
          jointX = js_mul (Math_sin (js_add phase (js_div Math_PI 2))) 6;
          ctx = set_strokeStyle ctx (if isArm then Color ''#bae6fd'' else Color ''#1d4ed8'');
          ctx = set_lineWidth ctx (if isArm then 8 else 10);
          ctx = set_lineCap ctx ''round'';
          ctx = beginPath ctx;
          ctx = moveTo ctx 0 0;
          ctx = quadraticCurveTo ctx (js_add jointX (js_mul swing 10)) jointY
                  (js_mul swing 30) len;
          ctx = stroke ctx
      in restore ctx)"

definition drawRoundedRect ::
  "ctx2d \<Rightarrow> real \<Rightarrow> real \<Rightarrow> real \<Rightarrow> real \<Rightarrow> real \<Rightarrow> ctx2d" where
  "drawRoundedRect ctx x y width height radius =
     (let r = min radius (min (js_div \<bar>width\<bar> 2) (js_div \<bar>height\<bar> 2));
          ctx = beginPath ctx;
          ctx = moveTo ctx (js_add x r) y;
          ctx = lineTo ctx (js_sub (js_add x width) r) y;
          ctx = quadraticCurveTo ctx (js_add x width) y (js_add x width) (js_add y r);
          ctx = lineTo ctx (js_add x width) (js_sub (js_add y height) r);
          ctx = quadraticCurveTo ctx (js_add x width) (js_add y height)
                  (js_sub (js_add x width) r) (js_add y height);
          ctx = lineTo ctx (js_add x r) (js_add y height);
          ctx = quadraticCurveTo ctx x (js_add y height) x (js_sub (js_add y height) r);
          ctx = lineTo ctx x (js_add y r);
          ctx = quadraticCurveTo ctx x y (js_add x r) y;
          ctx = closePath ctx
      in fill ctx)"

text \<open>
  The coat colour is the template string \<open>hsl(199 88% L%)\<close> for the number
  \<open>L = coatLightness\<close>: it is kept as the three numbers.
\<close>

definition drawCharacter :: "ctx2d \<Rightarrow> real \<Rightarrow> real \<Rightarrow> real \<Rightarrow> real \<Rightarrow> ctx2d" where
  "drawCharacter ctx width height cycleProgress walkPhase =
     (let baseX = js_mul width (js_lit 0.5);
          groundY = js_mul height (js_lit 0.78);
          stride = js_mul (Math_sin walkPhase) 20;
          bob = js_mul (Math_sin (js_mul walkPhase 2)) 4;
          coatLightness = js_add 52 (js_mul (Math_sin (js_mul (js_mul cycleProgress Math_PI) 2)) 6);
          ctx = save ctx;
          ctx = translate ctx (js_add baseX (js_mul stride (js_lit 0.6))) (js_sub groundY bob);
          ctx = set_shadowColor ctx ''rgba(37, 99, 235, 0.4)'';
          ctx = set_shadowBlur ctx 25;
          ctx = set_fillStyle ctx (Color ''#1e293b'');
          ctx = beginPath ctx;
          ctx = ellipse ctx (- 120) 20 140 20 0 0 (js_mul Math_PI 2);
          ctx = set_globalAlpha ctx (js_lit 0.35);
          ctx = fill ctx;
          ctx = set_globalAlpha ctx 1;
          ctx = save ctx;
          ctx = translate ctx 0 (- 140);
          ctx = set_fillStyle ctx (Color ''#38bdf8'');
          ctx = save ctx;
          ctx = rotate_ctx ctx (js_mul (Math_sin walkPhase) (js_lit 0.1));
          ctx = fillRect ctx (- 12) (- 90) 24 110;
          ctx = restore ctx;
          ctx = set_fillStyle ctx (Hsl 199 88 coatLightness);
          ctx = drawRoundedRect ctx (- 24) (- 35) 48 70 18;
          ctx = set_fillStyle ctx (Color ''#f8fafc'');
          ctx = beginPath ctx;
          ctx = arc ctx 0 (- 120) 26 0 (js_mul Math_PI 2);
          ctx = fill ctx;
          ctx = drawLimb ctx 0 (- 60) 18 walkPhase True;
          ctx = drawLimb ctx 0 (- 60) 18 (js_add walkPhase Math_PI) True;
          ctx = drawLimb ctx 0 0 28 (js_add walkPhase Math_PI) False;
          ctx = drawLimb ctx 0 0 28 walkPhase False;
          ctx = restore ctx
      in restore ctx)"

text \<open>The bodies of the two loops of \<open>drawAtmospherics\<close>.\<close>

definition drawAtmospherics_glow ::
  "real \<Rightarrow> real \<Rightarrow> real \<Rightarrow> nat \<Rightarrow> nat \<Rightarrow> ctx2d \<Rightarrow> ctx2d" where
  "drawAtmospherics_glow width height elapsed glowCount i ctx =
     (let x = js_add (js_mul (js_div (real i) (real glowCount)) width)
                (js_mul (Math_sin (js_add (js_mul elapsed (js_lit 0.0004)) (real i))) 40);
          y = js_add (js_mul height (js_lit 0.62))
                (js_mul (Math_cos (js_add (js_mul elapsed (js_lit 0.0007)) (real i))) 10);
          gradient = createRadialGradient x y 0 x y 180;
          gradient = addColorStop gradient 0 ''rgba(56, 189, 248, 0.2)'';
          gradient = addColorStop gradient 1 ''rgba(56, 189, 248, 0)'';
          ctx = set_fillStyle ctx gradient
      in fillRect ctx (js_sub x 180) (js_sub y 180) 360 360)"

definition drawAtmospherics_wave :: "real \<Rightarrow> real \<Rightarrow> real \<Rightarrow> ctx2d \<Rightarrow> ctx2d" where
  "drawAtmospherics_wave height elapsed i ctx =
     (let waveY =
            js_add
              (js_add (js_mul height (js_lit 0.75))
                 (js_mul (Math_sin (js_add (js_mul i (js_lit 0.02))
                                      (js_mul elapsed (js_lit 0.004)))) 6))
              (js_mul (Math_sin (js_add (js_mul i (js_lit 0.05))
                                   (js_mul elapsed (js_lit 0.002)))) 4)
      in lineTo ctx i waveY)"

definition drawAtmospherics :: "ctx2d \<Rightarrow> real \<Rightarrow> real \<Rightarrow> real \<Rightarrow> ctx2d" where
  "drawAtmospherics ctx width height elapsed =
     (let ctx = save ctx;
          glowCount = 5;
          ctx = for_count 0 glowCount (drawAtmospherics_glow width height elapsed glowCount) ctx;
          ctx = set_globalCompositeOperation ctx ''lighter'';
          ctx = set_strokeStyle ctx (Color ''rgba(56, 189, 248, 0.08)'');
          ctx = set_lineWidth ctx 1;
          ctx = beginPath ctx;
          ctx = for_step8 0 width (drawAtmospherics_wave height elapsed) ctx;
          ctx = stroke ctx
      in restore ctx)"

definition renderFrame ::
  "ctx2d \<Rightarrow> real \<Rightarrow> real \<Rightarrow> Star list \<Rightarrow> SkylineSegment list \<Rightarrow> real \<Rightarrow> ctx2d" where
  "renderFrame ctx cycleProgress walkPhase stars skyline elapsed =
     (let width = CANVAS_WIDTH;
          height = CANVAS_HEIGHT;
          ctx = clearRect ctx 0 0 width height;
          ctx = drawSky ctx width height stars elapsed;
          ctx = drawSkyline ctx width height skyline elapsed;
          ctx = drawStreet ctx width height elapsed;
          ctx = drawCharacter ctx width height cycleProgress walkPhase
      in drawAtmospherics ctx width height elapsed)"

text \<open>
  The body of \<open>draw\<close> for the time \<open>elapsed = timestamp - startTimeRef.current\<close>, and
  the animation loop: one call of \<open>draw\<close> for each timestamp the browser passes to the
  \<open>requestAnimationFrame\<close> callback.
\<close>

definition draw :: "Star list \<Rightarrow> SkylineSegment list \<Rightarrow> real \<Rightarrow> ctx2d \<Rightarrow> ctx2d" where
  "draw stars skyline elapsed ctx =
     renderFrame ctx (cycleProgress_of elapsed) (walkPhase_of elapsed) stars skyline elapsed"

fun animate :: "Star list \<Rightarrow> SkylineSegment list \<Rightarrow> real list \<Rightarrow> ctx2d \<Rightarrow> ctx2d" where
  "animate stars skyline [] ctx = ctx"
| "animate stars skyline (elapsed # rest) ctx =
     animate stars skyline rest (draw stars skyline elapsed ctx)"

text \<open>The painting operations issued between the context \<open>before\<close> and \<open>after\<close>.\<close>

definition painted :: "ctx2d \<Rightarrow> ctx2d \<Rightarrow> paint_op list" where
  "painted before after = drop (length (ops before)) (ops after)"

text \<open>
  The part of the drawing state that \<open>renderFrame\<close> changes only between a \<open>save\<close>
  and its \<open>restore\<close>: everything but \<open>fillStyle\<close>, \<open>strokeStyle\<close> and \<open>lineWidth\<close>.
\<close>

definition ambient ::
  "draw_state \<Rightarrow> matrix \<times> real \<times> string \<times> real list \<times> real \<times> string \<times> real \<times> string" where
  "ambient d = (transform d, globalAlpha d, lineCap d, lineDash d, lineDashOffset d,
     shadowColor d, shadowBlur d, globalCompositeOperation d)"

text \<open>
  Two contexts are related when they agree on a view of their state and have painted
  the same operations since the points where their logs were \<open>o1\<close> and \<open>o2\<close>.
\<close>

definition related ::
  "(ctx2d \<Rightarrow> 'v) \<Rightarrow> paint_op list \<Rightarrow> paint_op list \<Rightarrow> ctx2d \<Rightarrow> ctx2d \<Rightarrow> bool" where
  "related view o1 o2 c1 c2 \<longleftrightarrow>
     view c1 = view c2 \<and> (\<exists>xs. ops c1 = o1 @ xs \<and> ops c2 = o2 @ xs)"

section \<open>Renderer: the surface\<close>

text \<open>
  The bitmap of a canvas of \<open>W\<close> by \<open>H\<close> pixels gives a colour to each pixel
  \<open>(i, j)\<close>, \<open>i < W\<close> and \<open>j < H\<close>; outside the canvas it is kept transparent. The pixel
  \<open>(i, j)\<close> is the unit square with the corners \<open>(i, j)\<close> and \<open>(i + 1, j + 1)\<close> of the
  surface.

  How an operation changes the bitmap is the business of the browser's rasteriser, a
  function \<open>rast\<close> of the operation (which carries the transform, compositing, styles
  and path it paints with) and of the bitmap before it; nothing is assumed of this
  function, except what the canvas standard says of \<open>clearRect\<close>: a pixel that lies
  entirely inside the rectangle becomes transparent black. The renderer never sets a
  clipping region, so none is modelled.
\<close>

type_synonym pixel = "nat \<times> nat"
type_synonym rgba = "nat \<times> nat \<times> nat \<times> nat"
type_synonym bitmap = "pixel \<Rightarrow> rgba"

definition transparent_black :: rgba where
  "transparent_black = (0, 0, 0, 0)"

definition on_canvas :: "nat \<Rightarrow> nat \<Rightarrow> pixel \<Rightarrow> bool" where
  "on_canvas W H p \<longleftrightarrow> fst p < W \<and> snd p < H"

text \<open>
  Whether the pixel lies entirely inside the rectangle \<open>(x, y, w, h)\<close> mapped by the
  matrix, for a matrix without rotation or shear that does not mirror.
\<close>

definition pixel_inside :: "matrix \<Rightarrow> real \<Rightarrow> real \<Rightarrow> real \<Rightarrow> real \<Rightarrow> pixel \<Rightarrow> bool" where
  "pixel_inside m x y w h p =
     (case m of (a, b, c, d, e, f) \<Rightarrow>
        b = 0 \<and> c = 0 \<and> 0 < a \<and> 0 < d \<and> 0 \<le> w \<and> 0 \<le> h
        \<and> a * x + e \<le> real (fst p) \<and> real (fst p) + 1 \<le> a * (x + w) + e
        \<and> d * y + f \<le> real (snd p) \<and> real (snd p) + 1 \<le> d * (y + h) + f)"

definition paint ::
  "nat \<Rightarrow> nat \<Rightarrow> (paint_op \<Rightarrow> bitmap \<Rightarrow> bitmap) \<Rightarrow> bitmap \<Rightarrow> paint_op \<Rightarrow> bitmap" where
  "paint W H rast bmp p =
     (\<lambda>px. if \<not> on_canvas W H px then transparent_black
           else case p of
             ClearRect m x y w h \<Rightarrow>
               if pixel_inside m x y w h px then transparent_black else rast p bmp px
           | _ \<Rightarrow> rast p bmp px)"

text \<open>The bitmap after a sequence of operations, from the bitmap before them.\<close>

definition paint_all ::
  "nat \<Rightarrow> nat \<Rightarrow> (paint_op \<Rightarrow> bitmap \<Rightarrow> bitmap) \<Rightarrow> paint_op list \<Rightarrow> bitmap \<Rightarrow> bitmap" where
  "paint_all W H rast ps bmp = foldl (paint W H rast) bmp ps"

section \<open>Renderer: the columns the skyline covers\<close>

text \<open>
  Whether the filled rectangles among the operations cover the column \<open>X\<close> of the
  surface: a rectangle \<open>(x, y, w, h)\<close> under the matrix \<open>(a, b, c, d, e, f)\<close> of a
  translation or scaling spans the columns from \<open>a * x + e\<close> to \<open>a * (x + w) + e\<close>.
\<close>

fun covers_column :: "real \<Rightarrow> paint_op \<Rightarrow> bool" where
  "covers_column X (FillRect k st x y w h) =
     (case c_transform k of (a, b, c, d, e, f) \<Rightarrow> a * x + e \<le> X \<and> X < a * (x + w) + e)"
| "covers_column X p = False"

definition column_covered :: "paint_op list \<Rightarrow> real \<Rightarrow> bool" where
  "column_covered ps X = list_ex (covers_column X) ps"

text \<open>A context in its default state: the identity matrix, opaque black, no shadow.\<close>

definition default_state :: draw_state where
  "default_state = \<lparr> transform = (1, 0, 0, 1, 0, 0), fillStyle = Color ''#000000'',
     strokeStyle = Color ''#000000'', globalAlpha = 1, lineWidth = 1, lineCap = ''butt'',
     lineDash = [], lineDashOffset = 0, shadowColor = ''rgba(0, 0, 0, 0)'', shadowBlur = 0,
     globalCompositeOperation = ''source-over'' \<rparr>"

definition getContext :: ctx2d where
  "getContext = \<lparr> cur = default_state, saved = [], path = [], ops = [] \<rparr>"

section \<open>Capture controller: the invariant holds in every reachable state\<close>

text \<open>
  Each handler preserves the invariant; so does the commit that follows it. Updates of one
  recorder are covered by \<open>inv_update\<close>: the recorder stays well-formed, and it is
  either settled or the last one created while the state is \<open>recording\<close>.
\<close>

lemma inv_mount: "inv cv (mount cv)"
  by (simp add: inv_def mount_def)

lemma inv_update:
  assumes "inv cv s" "r < length (recorders s)" "recorder_ok m"
    and "settled m \<or> (Suc r = length (recorders s) \<and> recorderState s = recording)"
  shows "inv cv (s\<lparr>recorders := (recorders s)[r := m]\<rparr>)"
  using assms unfolding inv_def
  by (simp add: nth_list_update) (metis Suc_lessI nat_neq_iff)

lemma inv_recorder_ok: "inv cv s \<Longrightarrow> r < length (recorders s) \<Longrightarrow> recorder_ok (recorders s ! r)"
  by (simp add: inv_def)

lemma inv_unsettled:
  "inv cv s \<Longrightarrow> r < length (recorders s) \<Longrightarrow> \<not> settled (recorders s ! r) \<Longrightarrow>
   Suc r = length (recorders s) \<and> recorderState s = recording \<and> recorderRef s = Some r
   \<and> downloadUrl s = None"
  unfolding inv_def
  by (metis Suc_lessI diff_Suc_1 list.size(3) not_less_zero)

lemma inv_mr_stop: "inv cv s \<Longrightarrow> inv cv (mr_stop r s)"
proof -
  assume i: "inv cv s"
  show ?thesis
  proof (cases "r < length (recorders s) \<and> mr_state (recorders s ! r) \<noteq> mr_inactive")
    case True
    then have u: "\<not> settled (recorders s ! r)" by (simp add: settled_def)
    have ok: "recorder_ok ((recorders s ! r)\<lparr>mr_state := mr_inactive, stop_task_queued := True\<rparr>)"
      using inv_recorder_ok[OF i, of r] True by (auto simp: recorder_ok_def)
    show ?thesis
      using True inv_update[OF i _ ok] inv_unsettled[OF i _ u] by (simp add: mr_stop_def)
  next
    case False
    then show ?thesis using i by (auto simp: mr_stop_def)
  qed
qed

lemma inv_setMessage: "inv cv s \<Longrightarrow> inv cv (setMessage m s)"
  by (simp add: inv_def setMessage_def)

lemma inv_clearTimeout: "inv cv s \<Longrightarrow> inv cv (clearTimeout h s)"
  by (simp add: inv_def clearTimeout_def distinct_map_filter)

lemma inv_revokeObjectURL:
  "inv cv s \<Longrightarrow> u < length (created s) \<Longrightarrow> inv cv (revokeObjectURL u s)"
  by (simp add: inv_def revokeObjectURL_def)

lemma inv_effect_cleanup:
  assumes "inv cv s" and "\<And>u. captured = Some u \<Longrightarrow> u < length (created s)"
  shows "inv cv (effect_cleanup captured s)"
proof -
  have 1: "inv cv (case recorderRef s of None \<Rightarrow> s
     | Some r \<Rightarrow> if r < length (recorders s) \<and> mr_state (recorders s ! r) = mr_recording
         then mr_stop r s else s)" (is "inv cv ?s1")
    using assms(1) by (simp add: inv_mr_stop split: option.splits)
  have c1: "created ?s1 = created s"
    by (simp add: mr_stop_def split: option.splits)
  have 2: "inv cv (case pendingTimeoutRef ?s1 of None \<Rightarrow> ?s1
     | Some h \<Rightarrow> if h \<noteq> 0 then clearTimeout h ?s1 else ?s1)" (is "inv cv ?s2")
    using 1 by (simp add: inv_clearTimeout split: option.splits)
  have c2: "created ?s2 = created s"
    using c1 by (simp add: clearTimeout_def split: option.splits)
  have "inv cv (case captured of None \<Rightarrow> ?s2 | Some u \<Rightarrow> revokeObjectURL u ?s2)"
    using 2 assms(2) c2 by (auto simp: inv_revokeObjectURL split: option.splits)
  then show ?thesis by (simp add: effect_cleanup_def Let_def)
qed

lemma inv_commit:
  assumes "inv cv s" and "\<And>u. captured = Some u \<Longrightarrow> u < length (created s)"
  shows "inv cv (commit captured s)"
  using assms by (simp add: commit_def inv_effect_cleanup)

lemma inv_ondataavailable: "inv cv s \<Longrightarrow> inv cv (ondataavailable r b s)"
proof -
  assume i: "inv cv s"
  show ?thesis
  proof (cases "r < length (recorders s) \<and> 0 < blob_size b")
    case True
    let ?m = "(recorders s ! r)\<lparr>chunks := chunks (recorders s ! r) @ [b]\<rparr>"
    have ok: "recorder_ok ?m"
      using inv_recorder_ok[OF i, of r] True by (auto simp: recorder_ok_def)
    have "settled ?m \<or> (Suc r = length (recorders s) \<and> recorderState s = recording)"
      using inv_unsettled[OF i, of r] True by (auto simp: settled_def)
    then show ?thesis
      using True inv_update[OF i _ ok] by (simp add: ondataavailable_def)
  next
    case False
    then show ?thesis using i by (auto simp: ondataavailable_def)
  qed
qed

lemma inv_timeout_callback: "inv cv s \<Longrightarrow> inv cv (timeout_callback r s)"
proof -
  assume "inv cv s"
  then have "inv cv (mr_stop r s)" by (rule inv_mr_stop)
  then show ?thesis by (simp add: inv_def timeout_callback_def)
qed

lemma inv_fire_Timeout: "inv cv s \<Longrightarrow> inv cv (fire (Timeout h) s)"
  by (simp add: inv_timeout_callback inv_clearTimeout split: option.splits)

lemma inv_idle_settled:
  "inv cv s \<Longrightarrow> recorderState s = idle \<Longrightarrow> i < length (recorders s) \<Longrightarrow> settled (recorders s ! i)"
  unfolding inv_def by (metis RecorderState.distinct(1))

lemma recorder_ok_new: "recorder_ok new_recorder" "settled new_recorder"
  "recorder_ok (new_recorder\<lparr>mr_state := mr_recording\<rparr>)"
  by (simp_all add: recorder_ok_def settled_def new_recorder_def)

lemma inv_start_throws:
  assumes i: "inv cv s" and idle: "recorderState s = idle"
    and cv: "canvasRef s = Some c" "has_captureStream c"
  shows "inv cv (s\<lparr>recorders := recorders s @ [new_recorder],
     recorderRef := Some (length (recorders s)), recorderState := recording, message := m,
     revoked := (case downloadUrl s of None \<Rightarrow> revoked s | Some u \<Rightarrow> revoked s @ [u]),
     downloadUrl := None\<rparr>)"
proof -
  have c: "cv = Some c" using i cv by (simp add: inv_def)
  show ?thesis
    using i cv(2) inv_idle_settled[OF i idle] recorder_ok_new unfolding inv_def c
    by (auto simp: nth_append less_Suc_eq split: option.splits)
qed

lemma inv_started:
  assumes i: "inv cv s" and idle: "recorderState s = idle"
    and cv: "canvasRef s = Some c" "has_captureStream c"
  shows "inv cv (s\<lparr>recorders := recorders s @ [new_recorder\<lparr>mr_state := mr_recording\<rparr>],
     recorderRef := Some (length (recorders s)), recorderState := recording, message := m,
     revoked := (case downloadUrl s of None \<Rightarrow> revoked s | Some u \<Rightarrow> revoked s @ [u]),
     downloadUrl := None,
     timers := timers s @ [(Suc (timer_count s), length (recorders s))],
     timer_count := Suc (timer_count s), pendingTimeoutRef := Some (Suc (timer_count s))\<rparr>)"
proof -
  have c: "cv = Some c" using i cv by (simp add: inv_def)
  show ?thesis
    using i cv(2) inv_idle_settled[OF i idle] recorder_ok_new unfolding inv_def c
    by (auto simp: nth_append less_Suc_eq split: option.splits)
qed

lemma handleRecord_start:
  assumes "canvasRef s = Some c" "has_captureStream c" "recorderState s = idle"
  shows "handleRecord Started s =
    s\<lparr>recorders := recorders s @ [new_recorder\<lparr>mr_state := mr_recording\<rparr>],
     recorderRef := Some (length (recorders s)), recorderState := recording,
     message := msg_progress,
     revoked := (case downloadUrl s of None \<Rightarrow> revoked s | Some u \<Rightarrow> revoked s @ [u]),
     downloadUrl := None,
     timers := timers s @ [(Suc (timer_count s), length (recorders s))],
     timer_count := Suc (timer_count s), pendingTimeoutRef := Some (Suc (timer_count s))\<rparr>"
  using assms
  by (simp add: handleRecord_def Let_def setMessage_def setRecorderState_def mr_start_def
      revokeObjectURL_def split: option.splits)

lemma handleRecord_start_throws:
  assumes "canvasRef s = Some c" "has_captureStream c" "recorderState s = idle"
  shows "handleRecord StartThrows s =
    s\<lparr>recorders := recorders s @ [new_recorder],
     recorderRef := Some (length (recorders s)), recorderState := recording,
     message := msg_unavailable,
     revoked := (case downloadUrl s of None \<Rightarrow> revoked s | Some u \<Rightarrow> revoked s @ [u]),
     downloadUrl := None\<rparr>"
  using assms
  by (simp add: handleRecord_def Let_def setMessage_def setRecorderState_def mr_start_def
      revokeObjectURL_def split: option.splits)

lemma inv_handleRecord: "inv cv s \<Longrightarrow> inv cv (handleRecord env s)"
proof -
  assume i: "inv cv s"
  show ?thesis
  proof (cases "canvasRef s")
    case None
    then show ?thesis using i by (simp add: handleRecord_def)
  next
    case (Some c)
    show ?thesis
    proof (cases "has_captureStream c")
      case False
      then show ?thesis using i Some by (simp add: handleRecord_def inv_setMessage)
    next
      case cap: True
      show ?thesis
      proof (cases "recorderState s")
        case recording
        then show ?thesis using i Some cap
          by (simp add: handleRecord_def inv_mr_stop split: option.splits)
      next
        case idle
        show ?thesis
        proof (cases env)
          case ConstructorThrows
          then show ?thesis using i Some cap idle by (simp add: handleRecord_def inv_setMessage)
        next
          case StartThrows
          then show ?thesis
            using inv_start_throws[OF i idle Some cap] handleRecord_start_throws[OF Some cap idle]
            by simp
        next
          case Started
          then show ?thesis
            using inv_started[OF i idle Some cap] handleRecord_start[OF Some cap idle]
            by simp
        qed
      qed
    qed
  qed
qed

lemma blob_size_new_Blob:
  assumes "cs \<noteq> []" "\<forall>b \<in> set cs. 0 < blob_size b"
  shows "0 < blob_size (new_Blob cs ty)"
proof -
  from assms obtain c cs' where "cs = c # cs'" "0 < blob_size c"
    by (cases cs) auto
  then show ?thesis by (simp add: new_Blob_def blob_size_def)
qed

lemma inv_finish:
  assumes i: "inv cv s" and last: "Suc r = length (recorders s)"
    and ok: "recorder_ok m" and st: "settled m" and rec: "recorderState s = recording"
  shows "inv cv (finish s r m)"
proof (cases "chunks m = []")
  case True
  then show ?thesis
    using i last ok st unfolding inv_def finish_def
    by (auto simp: nth_list_update less_Suc_eq)
next
  case False
  from ok have "\<forall>b \<in> set (chunks m). 0 < blob_size b" by (simp add: recorder_ok_def)
  with False have pos: "0 < blob_size (new_Blob (chunks m) ''video/webm'')"
    by (rule blob_size_new_Blob)
  from i rec have none: "downloadUrl s = None" by (simp add: inv_def)
  show ?thesis
    using False i last ok st pos none unfolding inv_def finish_def
    by (auto simp: nth_list_update less_Suc_eq)
qed

text \<open>The stop task and the error task in closed form.\<close>

lemma fire_StopTask:
  assumes "r < length (recorders s)"
  shows "fire (StopTask r b) s =
    finish s r ((with_data ((recorders s ! r)\<lparr>stop_task_queued := False\<rparr>) b)
      \<lparr>onstop_calls := Suc (onstop_calls (recorders s ! r))\<rparr>)"
  using assms
  by (simp add: onstop_def ondataavailable_def run_stop_task_def Let_def setMessage_def
      setRecorderState_def with_data_def finish_def)

lemma fire_ErrorTask:
  assumes "r < length (recorders s)"
  shows "fire (ErrorTask r b) s =
    finish s r ((with_data ((recorders s ! r)\<lparr>mr_state := mr_inactive\<rparr>) b)
      \<lparr>onstop_calls := Suc (onstop_calls (recorders s ! r))\<rparr>)"
  using assms
  by (simp add: onstop_def ondataavailable_def inactivate_def onerror_def Let_def setMessage_def
      setRecorderState_def with_data_def finish_def)

lemma inv_fire_StopTask:
  assumes i: "inv cv s" and en: "enabled (StopTask r b) s"
  shows "inv cv (fire (StopTask r b) s)"
proof -
  from en have r: "r < length (recorders s)" and q: "stop_task_queued (recorders s ! r)"
    by simp_all
  let ?m = "recorders s ! r"
  let ?m' = "(with_data (?m\<lparr>stop_task_queued := False\<rparr>) b)
    \<lparr>onstop_calls := Suc (onstop_calls ?m)\<rparr>"
  from q have "\<not> settled ?m" by (simp add: settled_def)
  with inv_unsettled[OF i r] have last: "Suc r = length (recorders s)"
    and rec: "recorderState s = recording" by simp_all
  have ok: "recorder_ok ?m'" and st: "settled ?m'"
    using inv_recorder_ok[OF i r] q
    by (auto simp: recorder_ok_def settled_def with_data_def)
  show ?thesis
    using inv_finish[OF i last ok st rec] by (simp add: fire_StopTask[OF r] del: fire.simps)
qed

lemma inv_fire_ErrorTask:
  assumes i: "inv cv s" and en: "enabled (ErrorTask r b) s"
  shows "inv cv (fire (ErrorTask r b) s)"
proof -
  from en have r: "r < length (recorders s)" and q: "mr_state (recorders s ! r) = mr_recording"
    by simp_all
  let ?m = "recorders s ! r"
  let ?m' = "(with_data (?m\<lparr>mr_state := mr_inactive\<rparr>) b)
    \<lparr>onstop_calls := Suc (onstop_calls ?m)\<rparr>"
  from q have "\<not> settled ?m" by (simp add: settled_def)
  with inv_unsettled[OF i r] have last: "Suc r = length (recorders s)"
    and rec: "recorderState s = recording" by simp_all
  have ok: "recorder_ok ?m'" and st: "settled ?m'"
    using inv_recorder_ok[OF i r] q
    by (auto simp: recorder_ok_def settled_def with_data_def)
  show ?thesis
    using inv_finish[OF i last ok st rec] by (simp add: fire_ErrorTask[OF r] del: fire.simps)
qed

lemma created_handleRecord: "created (handleRecord env s) = created s"
  by (simp add: handleRecord_def Let_def setMessage_def setRecorderState_def mr_start_def
      mr_stop_def revokeObjectURL_def split: option.splits)

lemma created_fire_mono: "length (created s) \<le> length (created (fire e s))"
proof (cases e)
  case (Click env)
  then show ?thesis by (simp add: created_handleRecord)
next
  case (Timeout h)
  then show ?thesis
    by (simp add: timeout_callback_def clearTimeout_def mr_stop_def split: option.splits)
next
  case (DataAvailable r b)
  then show ?thesis by (simp add: ondataavailable_def)
next
  case (StopTask r b)
  then show ?thesis
    by (simp add: onstop_def ondataavailable_def run_stop_task_def Let_def setMessage_def
        setRecorderState_def)
next
  case (ErrorTask r b)
  then show ?thesis
    by (simp add: onstop_def ondataavailable_def inactivate_def onerror_def Let_def
        setMessage_def setRecorderState_def)
qed

lemma inv_step: "inv cv s \<Longrightarrow> step e s = Some s' \<Longrightarrow> inv cv s'"
proof -
  assume i: "inv cv s" and st: "step e s = Some s'"
  then have en: "enabled e s" and s': "s' = commit (downloadUrl s) (fire e s)"
    by (auto simp: step_def split: if_splits)
  have "inv cv (fire e s)"
  proof (cases e)
    case (Click env)
    then show ?thesis using i by (simp add: inv_handleRecord)
  next
    case (Timeout h)
    then show ?thesis using inv_fire_Timeout[OF i] by simp
  next
    case (DataAvailable r b)
    then show ?thesis using i by (simp add: inv_ondataavailable)
  next
    case (StopTask r b)
    then show ?thesis using inv_fire_StopTask[OF i] en by simp
  next
    case (ErrorTask r b)
    then show ?thesis using inv_fire_ErrorTask[OF i] en by simp
  qed
  moreover have "length (created s) \<le> length (created (fire e s))"
    by (rule created_fire_mono)
  moreover have "u < length (created s)" if "downloadUrl s = Some u" for u
    using i that by (simp add: inv_def)
  ultimately show ?thesis unfolding s' by (intro inv_commit) force+
qed

lemma reachable_inv: "reachable cv s \<Longrightarrow> inv cv s"
  by (induction rule: reachable.induct) (auto simp: inv_mount intro: inv_step)

section \<open>Capture controller: at most one session\<close>

text \<open>Only the last recorder created can be active.\<close>

lemma filter_all_but_last:
  "(\<And>i. Suc i < length xs \<Longrightarrow> \<not> P (xs ! i)) \<Longrightarrow> length (filter P xs) \<le> 1"
proof (induction xs rule: rev_induct)
  case Nil
  then show ?case by simp
next
  case (snoc x xs)
  have "\<not> P y" if "y \<in> set xs" for y
  proof -
    from that obtain i where "i < length xs" "xs ! i = y" by (auto simp: in_set_conv_nth)
    with snoc.prems[of i] show ?thesis by (simp add: nth_append)
  qed
  then have "filter P xs = []" by (simp add: filter_empty_conv)
  then show ?case by simp
qed

lemma open_sessions_le_1: "inv cv s \<Longrightarrow> open_sessions s \<le> 1"
  unfolding open_sessions_def
  by (rule filter_all_but_last) (simp add: inv_def settled_def)

lemma open_sessions_0I:
  "(\<And>i. i < length (recorders s) \<Longrightarrow> mr_state (recorders s ! i) = mr_inactive) \<Longrightarrow>
   open_sessions s = 0"
  by (auto simp: open_sessions_def filter_empty_conv in_set_conv_nth)

lemma mr_stop_length [simp]: "length (recorders (mr_stop r s)) = length (recorders s)"
  by (simp add: mr_stop_def)

lemma mr_stop_downloadUrl [simp]: "downloadUrl (mr_stop r s) = downloadUrl s"
  by (simp add: mr_stop_def)

lemma mr_stop_last_closes:
  assumes i: "inv cv s" and r: "Suc r = length (recorders s)"
  shows "open_sessions (mr_stop r s) = 0"
proof (rule open_sessions_0I)
  fix i assume "i < length (recorders (mr_stop r s))"
  then have il: "i < length (recorders s)" by simp
  show "mr_state (recorders (mr_stop r s) ! i) = mr_inactive"
  proof (cases "i = r")
    case True
    then show ?thesis using il by (auto simp: mr_stop_def)
  next
    case False
    with il r have "Suc i < length (recorders s)" by arith
    with i have "settled (recorders s ! i)" by (simp add: inv_def)
    then show ?thesis using False il by (simp add: mr_stop_def settled_def)
  qed
qed

lemma handleRecord_while_recording:
  assumes i: "inv cv s" and rec: "recorderState s = recording"
  shows "handleRecord env s = mr_stop (length (recorders s) - 1) s"
proof -
  from i rec have ne: "recorders s \<noteq> []" by (simp add: inv_def)
  with i obtain c where "canvasRef s = Some c" "has_captureStream c"
    and "recorderRef s = Some (length (recorders s) - 1)"
    by (auto simp: inv_def)
  then show ?thesis using rec by (simp add: handleRecord_def)
qed

text \<open>
  Claim C2. In every reachable state of the capture controller at most one
  \<open>MediaRecorder\<close> session is open; a click on the toggle while the state is
  \<open>recording\<close> stops the session in progress and creates no recorder.
\<close>

theorem at_most_one_encoder_session:
  assumes "reachable cv s"
  shows "open_sessions s \<le> 1 \<and>
    (recorderState s = recording \<longrightarrow>
      (\<forall>env. \<exists>s'. step (Click env) s = Some s' \<and>
         length (recorders s') = length (recorders s) \<and> open_sessions s' = 0))"
proof -
  from assms have i: "inv cv s" by (rule reachable_inv)
  have "\<exists>s'. step (Click env) s = Some s' \<and>
         length (recorders s') = length (recorders s) \<and> open_sessions s' = 0"
    if rec: "recorderState s = recording" for env
  proof -
    from i rec have ne: "recorders s \<noteq> []" by (simp add: inv_def)
    then have last: "Suc (length (recorders s) - 1) = length (recorders s)" by simp
    have "step (Click env) s = Some (mr_stop (length (recorders s) - 1) s)"
      by (simp add: step_def handleRecord_while_recording[OF i rec] commit_def)
    then show ?thesis using mr_stop_last_closes[OF i last] by simp
  qed
  with open_sessions_le_1[OF i] show ?thesis by blast
qed

text \<open>Concrete runs from the mounted component, used as instances of the theorems.\<close>

lemma run_reachable: "reachable cv s \<Longrightarrow> run es s = Some s' \<Longrightarrow> reachable cv s'"
proof (induction es arbitrary: s)
  case Nil
  then show ?case by simp
next
  case (Cons e es)
  then show ?case by (auto split: option.splits intro: reachable_step)
qed

lemmas controller_defs = step_def commit_def effect_cleanup_def handleRecord_def mr_stop_def
  mr_start_def clearTimeout_def revokeObjectURL_def setMessage_def setRecorderState_def
  ondataavailable_def onstop_def onerror_def timeout_callback_def run_stop_task_def
  inactivate_def new_recorder_def mount_def Let_def blob_size_def new_Blob_def

lemma demo_recording:
  "run [Click Started] (mount (Some (Canvas True))) = Some
    \<lparr>canvasRef = Some (Canvas True), recorderRef = Some 0, pendingTimeoutRef = Some 1,
     recorderState = recording, downloadUrl = None, message = msg_progress,
     recorders = [\<lparr>mr_state = mr_recording, chunks = [], stop_task_queued = False,
       onstop_calls = 0\<rparr>],
     timers = [(1, 0)], timer_count = 1, created = [], revoked = []\<rparr>"
  by (simp add: controller_defs)

theorem at_most_one_encoder_session_witness:
  "\<exists>s. run [Click Started] (mount (Some (Canvas True))) = Some s \<and>
     open_sessions s = 1 \<and> recorderState s = recording \<and>
     (\<exists>s'. step (Click Started) s = Some s' \<and>
        length (recorders s') = length (recorders s) \<and> open_sessions s' = 0)"
proof -
  obtain s where s: "run [Click Started] (mount (Some (Canvas True))) = Some s"
    and rec: "recorderState s = recording" and op: "open_sessions s = 1"
    by (simp add: demo_recording open_sessions_def del: run.simps)
  have "reachable (Some (Canvas True)) s"
    using run_reachable[OF reachable_mount s] .
  from at_most_one_encoder_session[OF this] rec s op show ?thesis by blast
qed

section \<open>Capture controller: what a stopped session leaves behind\<close>

text \<open>
  Claim C9. In every reachable state every chunk in the buffer of every session has a
  positive size, because \<open>ondataavailable\<close> leaves the component unchanged on a
  chunk of size zero; hence every resource that was assembled is non-empty.
\<close>

theorem buffered_chunks_nonempty:
  assumes "reachable cv s"
  shows "(\<forall>m \<in> set (recorders s). \<forall>b \<in> set (chunks m). 0 < blob_size b) \<and>
    (\<forall>e \<in> set (created s). 0 < blob_size (snd e)) \<and>
    (\<forall>r b. blob_size b = 0 \<longrightarrow> ondataavailable r b s = s)"
proof -
  from assms have i: "inv cv s" by (rule reachable_inv)
  have "0 < blob_size b" if "m \<in> set (recorders s)" "b \<in> set (chunks m)" for m b
  proof -
    from that(1) obtain k where "k < length (recorders s)" "recorders s ! k = m"
      by (auto simp: in_set_conv_nth)
    with inv_recorder_ok[OF i, of k] that(2) show ?thesis by (auto simp: recorder_ok_def)
  qed
  moreover have "\<forall>e \<in> set (created s). 0 < blob_size (snd e)"
    using i by (simp add: inv_def)
  moreover have "ondataavailable r b s = s" if "blob_size b = 0" for r b
    using that by (simp add: ondataavailable_def)
  ultimately show ?thesis by blast
qed

lemma demo_clip:
  "run [Click Started, DataAvailable 0 (Blob [] ''video/webm''),
        DataAvailable 0 (Blob [7, 8] ''video/webm''), Click Started,
        StopTask 0 (Blob [9] ''video/webm'')] (mount (Some (Canvas True))) = Some
    \<lparr>canvasRef = Some (Canvas True), recorderRef = Some 0, pendingTimeoutRef = Some 1,
     recorderState = idle, downloadUrl = Some 0, message = msg_ready,
     recorders = [\<lparr>mr_state = mr_inactive,
       chunks = [Blob [7, 8] ''video/webm'', Blob [9] ''video/webm''],
       stop_task_queued = False, onstop_calls = 1\<rparr>],
     timers = [], timer_count = 1,
     created = [(0, Blob [7, 8, 9] ''video/webm'')], revoked = []\<rparr>"
  by (simp add: controller_defs)

theorem buffered_chunks_nonempty_witness:
  "\<exists>s. run [Click Started, DataAvailable 0 (Blob [] ''video/webm''),
        DataAvailable 0 (Blob [7, 8] ''video/webm''), Click Started,
        StopTask 0 (Blob [9] ''video/webm'')] (mount (Some (Canvas True))) = Some s \<and>
     map chunks (recorders s) = [[Blob [7, 8] ''video/webm'', Blob [9] ''video/webm'']] \<and>
     list_all (\<lambda>m. list_all (\<lambda>b. 0 < blob_size b) (chunks m)) (recorders s) \<and>
     list_all (\<lambda>e. 0 < blob_size (snd e)) (created s) \<and>
     ondataavailable 0 (Blob [] ''video/webm'') s = s"
proof -
  obtain s where s: "run [Click Started, DataAvailable 0 (Blob [] ''video/webm''),
        DataAvailable 0 (Blob [7, 8] ''video/webm''), Click Started,
        StopTask 0 (Blob [9] ''video/webm'')] (mount (Some (Canvas True))) = Some s"
    and c: "map chunks (recorders s) = [[Blob [7, 8] ''video/webm'', Blob [9] ''video/webm'']]"
    by (simp add: demo_clip del: run.simps)
  have "reachable (Some (Canvas True)) s"
    using run_reachable[OF reachable_mount s] .
  from buffered_chunks_nonempty[OF this] s c show ?thesis
    by (auto simp: list_all_iff blob_size_def)
qed

lemma effect_cleanup_fields [simp]:
  "created (effect_cleanup u s) = created s"
  "downloadUrl (effect_cleanup u s) = downloadUrl s"
  "message (effect_cleanup u s) = message s"
  "recorderState (effect_cleanup u s) = recorderState s"
  "revoked (effect_cleanup None s) = revoked s"
  "pendingTimeoutRef (effect_cleanup u s) = pendingTimeoutRef s"
  by (simp_all add: effect_cleanup_def Let_def mr_stop_def clearTimeout_def revokeObjectURL_def
      split: option.splits)

lemma commit_fields [simp]:
  "created (commit u s) = created s"
  "downloadUrl (commit u s) = downloadUrl s"
  "message (commit u s) = message s"
  "recorderState (commit u s) = recorderState s"
  "revoked (commit None s) = revoked s"
  "pendingTimeoutRef (commit u s) = pendingTimeoutRef s"
  by (simp_all add: commit_def)

lemma finish_fields:
  "chunks m = [] \<Longrightarrow> created (finish s r m) = created s"
  "chunks m = [] \<Longrightarrow> downloadUrl (finish s r m) = downloadUrl s"
  "chunks m = [] \<Longrightarrow> message (finish s r m) = msg_no_data"
  "chunks m \<noteq> [] \<Longrightarrow> created (finish s r m) =
     created s @ [(length (created s), new_Blob (chunks m) ''video/webm'')]"
  "chunks m \<noteq> [] \<Longrightarrow> downloadUrl (finish s r m) = Some (length (created s))"
  "chunks m \<noteq> [] \<Longrightarrow> message (finish s r m) = msg_ready"
  "recorderState (finish s r m) = idle"
  "revoked (finish s r m) = revoked s"
  "recorders (finish s r m) = (recorders s)[r := m]"
  by (simp_all add: finish_def)

text \<open>The recorder of a session as its \<open>onstop\<close> handler finds it.\<close>

lemma stopping_event:
  assumes i: "inv cv s" and e: "e = StopTask r b \<or> e = ErrorTask r b" and en: "enabled e s"
  shows "r < length (recorders s) \<and> downloadUrl s = None \<and>
    (\<forall>c \<in> set (created s). fst c \<in> set (revoked s)) \<and>
    (\<exists>m. chunks m = chunks (with_data (recorders s ! r) b) \<and>
       step e s = Some (commit None (finish s r m)))"
proof -
  from e en have r: "r < length (recorders s)" and u: "\<not> settled (recorders s ! r)"
    by (auto simp: settled_def)
  from inv_unsettled[OF i r u] have none: "downloadUrl s = None" by simp
  with i have rv: "\<forall>c \<in> set (created s). fst c \<in> set (revoked s)"
    by (simp add: inv_def)
  from e have "\<exists>m. chunks m = chunks (with_data (recorders s ! r) b) \<and>
       fire e s = finish s r m"
  proof
    assume "e = StopTask r b"
    then show ?thesis
      using fire_StopTask[OF r, of b] by (intro exI conjI) (auto simp: with_data_def)
  next
    assume "e = ErrorTask r b"
    then show ?thesis
      using fire_ErrorTask[OF r, of b] by (intro exI conjI) (auto simp: with_data_def)
  qed
  then show ?thesis using r none rv en by (auto simp: step_def)
qed

text \<open>
  Claim C6. When a session stops (by its stop task, or by the error task) and its buffer
  holds no chunk when \<open>onstop\<close> runs, the controller reports the no-data message,
  returns to \<open>idle\<close>, leaves \<open>downloadUrl\<close> unset and creates no resource.
\<close>

theorem zero_chunks_no_resource:
  assumes "reachable cv s" and "e = StopTask r b \<or> e = ErrorTask r b" and "enabled e s"
    and "chunks (with_data (recorders s ! r) b) = []"
  shows "\<exists>s'. step e s = Some s' \<and> message s' = msg_no_data \<and> recorderState s' = idle \<and>
    downloadUrl s' = None \<and> created s' = created s"
proof -
  from assms(1) have i: "inv cv s" by (rule reachable_inv)
  from stopping_event[OF i assms(2,3)] assms(4) show ?thesis
    by (auto simp: finish_fields)
qed

lemma demo_stopping:
  "run [Click Started, Click Started] (mount (Some (Canvas True))) = Some
    \<lparr>canvasRef = Some (Canvas True), recorderRef = Some 0, pendingTimeoutRef = Some 1,
     recorderState = recording, downloadUrl = None, message = msg_progress,
     recorders = [\<lparr>mr_state = mr_inactive, chunks = [], stop_task_queued = True,
       onstop_calls = 0\<rparr>],
     timers = [(1, 0)], timer_count = 1, created = [], revoked = []\<rparr>"
  by (simp add: controller_defs)

theorem zero_chunks_no_resource_witness:
  "\<exists>s. run [Click Started, Click Started] (mount (Some (Canvas True))) = Some s \<and>
     enabled (StopTask 0 (Blob [] ''video/webm'')) s \<and>
     chunks (with_data (recorders s ! 0) (Blob [] ''video/webm'')) = [] \<and>
     (\<exists>s'. step (StopTask 0 (Blob [] ''video/webm'')) s = Some s' \<and>
        message s' = msg_no_data \<and> recorderState s' = idle \<and> downloadUrl s' = None \<and>
        created s' = [])"
proof -
  obtain s where s: "run [Click Started, Click Started] (mount (Some (Canvas True))) = Some s"
    and en: "enabled (StopTask 0 (Blob [] ''video/webm'')) s"
    and c: "chunks (with_data (recorders s ! 0) (Blob [] ''video/webm'')) = []"
    and cr: "created s = []"
    by (simp add: demo_stopping with_data_def blob_size_def del: run.simps)
  have "reachable (Some (Canvas True)) s"
    using run_reachable[OF reachable_mount s] .
  from zero_chunks_no_resource[OF this _ en c] s en c cr show ?thesis by auto
qed

text \<open>
  Claim C7. When the canvas does not support \<open>captureStream\<close>, the state is \<open>idle\<close>
  and a click on the toggle only sets the unsupported-feature message: every other field
  of the component (recorders, chunks, \<open>downloadUrl\<close>, timers) is unchanged.
\<close>

theorem unsupported_capture_only_reports:
  assumes "reachable (Some c) s" and "\<not> has_captureStream c"
  shows "recorderState s = idle \<and> handleRecord env s = s\<lparr>message := msg_unsupported\<rparr> \<and>
    step (Click env) s = Some (s\<lparr>message := msg_unsupported\<rparr>)"
proof -
  from assms(1) have i: "inv (Some c) s" by (rule reachable_inv)
  with assms(2) have cv: "canvasRef s = Some c" and "recorders s = []"
    by (auto simp: inv_def)
  with i have "recorderState s \<noteq> recording" by (auto simp: inv_def)
  then have idle: "recorderState s = idle" by (cases "recorderState s") auto
  have h: "handleRecord env s = s\<lparr>message := msg_unsupported\<rparr>"
    using cv assms(2) by (simp add: handleRecord_def setMessage_def)
  then show ?thesis using idle by (simp add: step_def commit_def)
qed

theorem unsupported_capture_only_reports_witness:
  "\<not> has_captureStream (Canvas False) \<and> recorderState (mount (Some (Canvas False))) = idle \<and>
   handleRecord Started (mount (Some (Canvas False))) =
     (mount (Some (Canvas False)))\<lparr>message := msg_unsupported\<rparr> \<and>
   step (Click Started) (mount (Some (Canvas False))) =
     Some ((mount (Some (Canvas False)))\<lparr>message := msg_unsupported\<rparr>)"
  using unsupported_capture_only_reports[OF reachable_mount, of "Canvas False" Started]
  by simp

text \<open>
  Claim C5. When a session stops with at least one buffered chunk, \<open>onstop\<close>
  concatenates the chunks in arrival order into one non-empty blob of type
  \<open>video/webm\<close>, mints exactly one URL for it, stores it in \<open>downloadUrl\<close>, reports
  the ready message and sets the state to \<open>idle\<close>; every URL created before has been
  revoked, and the new one has not. Right after the click that starts a session,
  \<open>downloadUrl\<close> is unset and every URL created so far has been revoked.
\<close>

theorem completed_recording_yields_one_resource:
  assumes "reachable cv s" and "enabled (StopTask r b) s"
    and "cs = chunks (with_data (recorders s ! r) b)" and "cs \<noteq> []"
  shows "(\<exists>s'. step (StopTask r b) s = Some s' \<and>
      created s' = created s @ [(length (created s), Blob (concat (map bytes cs)) ''video/webm'')] \<and>
      downloadUrl s' = Some (length (created s)) \<and> message s' = msg_ready \<and>
      recorderState s' = idle \<and>
      0 < blob_size (Blob (concat (map bytes cs)) ''video/webm'') \<and>
      (\<forall>c \<in> set (created s). fst c \<in> set (revoked s)) \<and>
      length (created s) \<notin> set (revoked s')) \<and>
    (\<forall>t env t'. reachable cv t \<and> recorderState t = idle \<and> step (Click env) t = Some t' \<and>
       recorderState t' = recording \<longrightarrow>
       downloadUrl t' = None \<and> (\<forall>c \<in> set (created t'). fst c \<in> set (revoked t')))"
proof -
  from assms(1) have i: "inv cv s" by (rule reachable_inv)
  then have "\<forall>u \<in> set (revoked s). u < length (created s)" by (simp add: inv_def)
  then have "length (created s) \<notin> set (revoked s)" by auto
  with stopping_event[OF i _ assms(2), of r b] assms(3,4)
  obtain s' where s': "step (StopTask r b) s = Some s'"
      "created s' = created s @ [(length (created s), Blob (concat (map bytes cs)) ''video/webm'')]"
      "downloadUrl s' = Some (length (created s))" "message s' = msg_ready"
      "recorderState s' = idle" "\<forall>c \<in> set (created s). fst c \<in> set (revoked s)"
      "length (created s) \<notin> set (revoked s')"
    by (auto simp: finish_fields new_Blob_def)
  from assms(1) s'(1) have "reachable cv s'" by (rule reachable_step)
  then have "inv cv s'" by (rule reachable_inv)
  then have "\<forall>e \<in> set (created s'). 0 < blob_size (snd e)" by (simp add: inv_def)
  with s'(2) have "0 < blob_size (Blob (concat (map bytes cs)) ''video/webm'')" by simp
  with s' have "\<exists>s'. step (StopTask r b) s = Some s' \<and>
      created s' = created s @ [(length (created s), Blob (concat (map bytes cs)) ''video/webm'')] \<and>
      downloadUrl s' = Some (length (created s)) \<and> message s' = msg_ready \<and>
      recorderState s' = idle \<and>
      0 < blob_size (Blob (concat (map bytes cs)) ''video/webm'') \<and>
      (\<forall>c \<in> set (created s). fst c \<in> set (revoked s)) \<and>
      length (created s) \<notin> set (revoked s')"
    by blast
  moreover have "downloadUrl t' = None \<and> (\<forall>c \<in> set (created t'). fst c \<in> set (revoked t'))"
    if "reachable cv t" "step (Click env) t = Some t'" "recorderState t' = recording"
    for t env t'
  proof -
    from that(1,2) have "reachable cv t'" by (rule reachable_step)
    then have "inv cv t'" by (rule reachable_inv)
    with that(3) show ?thesis by (auto simp: inv_def)
  qed
  ultimately show ?thesis by blast
qed

lemma demo_stopping_clip:
  "run [Click Started, DataAvailable 0 (Blob [7, 8] ''video/webm''), Click Started]
        (mount (Some (Canvas True))) = Some
    \<lparr>canvasRef = Some (Canvas True), recorderRef = Some 0, pendingTimeoutRef = Some 1,
     recorderState = recording, downloadUrl = None, message = msg_progress,
     recorders = [\<lparr>mr_state = mr_inactive, chunks = [Blob [7, 8] ''video/webm''],
       stop_task_queued = True, onstop_calls = 0\<rparr>],
     timers = [(1, 0)], timer_count = 1, created = [], revoked = []\<rparr>"
  by (simp add: controller_defs)

lemma demo_second_start:
  "run [Click Started, DataAvailable 0 (Blob [] ''video/webm''),
        DataAvailable 0 (Blob [7, 8] ''video/webm''), Click Started,
        StopTask 0 (Blob [9] ''video/webm''), Click Started] (mount (Some (Canvas True))) = Some
    \<lparr>canvasRef = Some (Canvas True), recorderRef = Some 1, pendingTimeoutRef = Some 2,
     recorderState = recording, downloadUrl = None, message = msg_progress,
     recorders = [\<lparr>mr_state = mr_inactive,
       chunks = [Blob [7, 8] ''video/webm'', Blob [9] ''video/webm''],
       stop_task_queued = False, onstop_calls = 1\<rparr>,
       \<lparr>mr_state = mr_inactive, chunks = [], stop_task_queued = True, onstop_calls = 0\<rparr>],
     timers = [], timer_count = 2,
     created = [(0, Blob [7, 8, 9] ''video/webm'')], revoked = [0, 0]\<rparr>"
  by (simp add: controller_defs)

theorem completed_recording_yields_one_resource_witness:
  "(\<exists>s. run [Click Started, DataAvailable 0 (Blob [7, 8] ''video/webm''), Click Started]
        (mount (Some (Canvas True))) = Some s \<and>
     enabled (StopTask 0 (Blob [9] ''video/webm'')) s \<and>
     chunks (with_data (recorders s ! 0) (Blob [9] ''video/webm'')) =
       [Blob [7, 8] ''video/webm'', Blob [9] ''video/webm''] \<and>
     (\<exists>s'. step (StopTask 0 (Blob [9] ''video/webm'')) s = Some s' \<and>
        created s' = [(0, Blob [7, 8, 9] ''video/webm'')] \<and>
        downloadUrl s' = Some 0 \<and> message s' = msg_ready \<and> recorderState s' = idle \<and>
        0 \<notin> set (revoked s'))) \<and>
   (\<exists>t t'. run [Click Started, DataAvailable 0 (Blob [] ''video/webm''),
        DataAvailable 0 (Blob [7, 8] ''video/webm''), Click Started,
        StopTask 0 (Blob [9] ''video/webm'')] (mount (Some (Canvas True))) = Some t \<and>
      recorderState t = idle \<and> downloadUrl t = Some 0 \<and>
      step (Click Started) t = Some t' \<and> recorderState t' = recording \<and>
      downloadUrl t' = None \<and> map fst (created t') = [0] \<and> 0 \<in> set (revoked t'))"
proof -
  obtain s where
    s: "run [Click Started, DataAvailable 0 (Blob [7, 8] ''video/webm''), Click Started]
        (mount (Some (Canvas True))) = Some s"
    and en: "enabled (StopTask 0 (Blob [9] ''video/webm'')) s"
    and c: "chunks (with_data (recorders s ! 0) (Blob [9] ''video/webm'')) =
       [Blob [7, 8] ''video/webm'', Blob [9] ''video/webm'']"
    and cr: "created s = []"
    by (simp add: demo_stopping_clip with_data_def blob_size_def del: run.simps)
  have rs: "reachable (Some (Canvas True)) s"
    using run_reachable[OF reachable_mount s] .
  obtain t where
    t: "run [Click Started, DataAvailable 0 (Blob [] ''video/webm''),
        DataAvailable 0 (Blob [7, 8] ''video/webm''), Click Started,
        StopTask 0 (Blob [9] ''video/webm'')] (mount (Some (Canvas True))) = Some t"
    and ti: "recorderState t = idle" "downloadUrl t = Some 0"
    by (simp add: demo_clip del: run.simps)
  have rt: "reachable (Some (Canvas True)) t"
    using run_reachable[OF reachable_mount t] .
  obtain t' where t': "step (Click Started) t = Some t'" and tr: "recorderState t' = recording"
    and tc: "map fst (created t') = [0]"
    using t demo_second_start by (auto split: option.splits)
  note inst = completed_recording_yields_one_resource[OF rs en c[symmetric]]
  from inst have 1: "\<exists>s'. step (StopTask 0 (Blob [9] ''video/webm'')) s = Some s' \<and>
        created s' = [(0, Blob [7, 8, 9] ''video/webm'')] \<and>
        downloadUrl s' = Some 0 \<and> message s' = msg_ready \<and> recorderState s' = idle \<and>
        0 \<notin> set (revoked s')"
    using cr by auto
  from inst rt ti t' tr have "downloadUrl t' = None \<and>
    (\<forall>c \<in> set (created t'). fst c \<in> set (revoked t'))" by blast
  with tc have 2: "downloadUrl t' = None \<and> 0 \<in> set (revoked t')"
    by (cases "created t'") auto
  from s en c 1 have A: "\<exists>s. run [Click Started, DataAvailable 0 (Blob [7, 8] ''video/webm''),
        Click Started] (mount (Some (Canvas True))) = Some s \<and>
     enabled (StopTask 0 (Blob [9] ''video/webm'')) s \<and>
     chunks (with_data (recorders s ! 0) (Blob [9] ''video/webm'')) =
       [Blob [7, 8] ''video/webm'', Blob [9] ''video/webm''] \<and>
     (\<exists>s'. step (StopTask 0 (Blob [9] ''video/webm'')) s = Some s' \<and>
        created s' = [(0, Blob [7, 8, 9] ''video/webm'')] \<and>
        downloadUrl s' = Some 0 \<and> message s' = msg_ready \<and> recorderState s' = idle \<and>
        0 \<notin> set (revoked s'))"
    by - (rule exI[of _ s], intro conjI, assumption+)
  from t ti t' tr tc 2 have B: "\<exists>t t'. run [Click Started, DataAvailable 0 (Blob [] ''video/webm''),
        DataAvailable 0 (Blob [7, 8] ''video/webm''), Click Started,
        StopTask 0 (Blob [9] ''video/webm'')] (mount (Some (Canvas True))) = Some t \<and>
      recorderState t = idle \<and> downloadUrl t = Some 0 \<and>
      step (Click Started) t = Some t' \<and> recorderState t' = recording \<and>
      downloadUrl t' = None \<and> map fst (created t') = [0] \<and> 0 \<in> set (revoked t')"
    by - (rule exI[of _ t], rule exI[of _ t'], simp del: run.simps)
  from A B show ?thesis by (rule conjI)
qed

section \<open>Capture controller: manual stop and timeout\<close>

lemma mr_stop_active:
  assumes "r < length (recorders s)" "mr_state (recorders s ! r) \<noteq> mr_inactive"
  shows "mr_stop r s = s\<lparr>recorders := (recorders s)[r := (recorders s ! r)
    \<lparr>mr_state := mr_inactive, stop_task_queued := True\<rparr>]\<rparr>"
  using assms by (simp add: mr_stop_def)

lemma mr_stop_inactive:
  "r < length (recorders s) \<Longrightarrow> mr_state (recorders s ! r) = mr_inactive \<Longrightarrow> mr_stop r s = s"
  by (simp add: mr_stop_def)

text \<open>A session in progress: recorder \<open>r\<close> is recording and timer \<open>h\<close> is armed for it.\<close>

lemma session_facts:
  assumes i: "inv cv s" and r: "r < length (recorders s)"
    and a: "mr_state (recorders s ! r) = mr_recording"
  shows "Suc r = length (recorders s)" "recorderState s = recording" "recorderRef s = Some r"
    "downloadUrl s = None" "onstop_calls (recorders s ! r) = 0"
    "\<not> stop_task_queued (recorders s ! r)"
proof -
  from a have u: "\<not> settled (recorders s ! r)" by (simp add: settled_def)
  from inv_unsettled[OF i r u]
  show "Suc r = length (recorders s)" "recorderState s = recording" "recorderRef s = Some r"
    "downloadUrl s = None" by simp_all
  from inv_recorder_ok[OF i r] a
  show "onstop_calls (recorders s ! r) = 0" "\<not> stop_task_queued (recorders s ! r)"
    by (auto simp: recorder_ok_def)
qed

lemma step_manual_stop:
  assumes i: "inv cv s" and r: "r < length (recorders s)"
    and a: "mr_state (recorders s ! r) = mr_recording"
  shows "step (Click env) s = Some (s\<lparr>recorders := (recorders s)[r := (recorders s ! r)
    \<lparr>mr_state := mr_inactive, stop_task_queued := True\<rparr>]\<rparr>)"
proof -
  note f = session_facts[OF i r a]
  from f(1) have "length (recorders s) - 1 = r" by simp
  with handleRecord_while_recording[OF i f(2), of env]
  have "handleRecord env s = mr_stop r s" by simp
  with mr_stop_active[OF r] a show ?thesis by (simp add: step_def commit_def)
qed

lemma step_timeout_stop:
  assumes t: "map_of (timers s) h = Some r"
  shows "step (Timeout h) s = Some ((mr_stop r (clearTimeout h s))\<lparr>pendingTimeoutRef := None\<rparr>)"
  using t by (simp add: step_def commit_def timeout_callback_def mr_stop_def clearTimeout_def)


text \<open>
  Claim C1. (as amended) For a session that is recording with its timeout armed, the manual
  stop and the timeout-triggered stop may arrive in either order: both orders end in the
  same state, the first stop inactivates the recorder and queues its one stop task, and the
  second changes no recorder. The stop task then invokes \<open>onstop\<close> once, for the only
  time in the life of the recorder, and the session finalizes one resource when its buffer
  holds a chunk and none when it is empty.
\<close>

theorem first_stop_wins:
  assumes "reachable cv s" and "r < length (recorders s)"
    and "mr_state (recorders s ! r) = mr_recording" and "map_of (timers s) h = Some r"
    and "stopped = (recorders s)[r := (recorders s ! r)
      \<lparr>mr_state := mr_inactive, stop_task_queued := True\<rparr>]"
  shows "\<exists>s1 s2 t1.
    step (Click env) s = Some s1 \<and> step (Timeout h) s1 = Some s2 \<and>
    step (Timeout h) s = Some t1 \<and> step (Click env) t1 = Some t1 \<and>
    s2 = t1 \<and> recorders s1 = stopped \<and> recorders t1 = stopped \<and>
    created t1 = created s \<and> onstop_calls (recorders s ! r) = 0 \<and>
    (\<forall>b. \<exists>t2. step (StopTask r b) t1 = Some t2 \<and>
       onstop_calls (recorders t2 ! r) = 1 \<and> settled (recorders t2 ! r) \<and>
       created t2 = created s @
         (if chunks (with_data (recorders s ! r) b) = [] then []
          else [(length (created s),
                 new_Blob (chunks (with_data (recorders s ! r) b)) ''video/webm'')])) \<and>
    (\<forall>s'. reachable cv s' \<and> r < length (recorders s') \<longrightarrow>
       onstop_calls (recorders s' ! r) \<le> 1)"
proof -
  from assms(1) have i: "inv cv s" by (rule reachable_inv)
  note r = assms(2) and a = assms(3) and t = assms(4)
  note f = session_facts[OF i r a]
  let ?s1 = "s\<lparr>recorders := stopped\<rparr>"
  let ?t1 = "s\<lparr>recorders := stopped, timers := filter (\<lambda>t. fst t \<noteq> h) (timers s),
    pendingTimeoutRef := None\<rparr>"
  have s1: "step (Click env) s = Some ?s1"
    using step_manual_stop[OF i r a] assms(5) by simp
  have t1: "step (Timeout h) s = Some ?t1"
    using step_timeout_stop[OF t] r a assms(5) by (simp add: mr_stop_def clearTimeout_def)
  have s2: "step (Timeout h) ?s1 = Some ?t1"
    using step_timeout_stop[of ?s1 h r] t r assms(5)
    by (simp add: mr_stop_def clearTimeout_def)
  have rt1: "reachable cv ?t1" using assms(1) t1 by (rule reachable_step)
  then have it1: "inv cv ?t1" by (rule reachable_inv)
  have click: "step (Click env) ?t1 = Some ?t1"
  proof -
    from f(1) have "length (recorders ?t1) - 1 = r" using assms(5) by simp
    with handleRecord_while_recording[OF it1, of env] f(2)
    have "handleRecord env ?t1 = mr_stop r ?t1" by simp
    also have "\<dots> = ?t1" using r assms(5) by (intro mr_stop_inactive) simp_all
    finally show ?thesis by (simp add: step_def commit_def)
  qed
  have stop: "\<exists>t2. step (StopTask r b) ?t1 = Some t2 \<and>
       onstop_calls (recorders t2 ! r) = 1 \<and> settled (recorders t2 ! r) \<and>
       created t2 = created s @
         (if chunks (with_data (recorders s ! r) b) = [] then []
          else [(length (created s),
                 new_Blob (chunks (with_data (recorders s ! r) b)) ''video/webm'')])" for b
  proof -
    have en: "enabled (StopTask r b) ?t1" using r assms(5) by simp
    let ?m = "(with_data ((recorders ?t1 ! r)\<lparr>stop_task_queued := False\<rparr>) b)
      \<lparr>onstop_calls := Suc (onstop_calls (recorders ?t1 ! r))\<rparr>"
    let ?f = "finish ?t1 r ?m"
    have fire: "fire (StopTask r b) ?t1 = ?f"
      using r assms(5) by (intro fire_StopTask) simp
    have st: "step (StopTask r b) ?t1 = Some (commit None ?f)"
      using en fire f(4) by (simp add: step_def del: fire.simps enabled.simps)
    have m: "onstop_calls ?m = 1" "settled ?m"
      "chunks ?m = chunks (with_data (recorders s ! r) b)"
      using r f(5) assms(5) by (simp_all add: with_data_def settled_def)
    have rec: "recorders (commit None ?f) = recorders ?f"
      using r m(2) f(3) assms(5)
      by (simp add: commit_def effect_cleanup_def Let_def finish_fields clearTimeout_def
          settled_def finish_def split: option.splits)
    have "recorders ?f ! r = ?m" using r assms(5) by (simp add: finish_fields)
    with rec have "recorders (commit None ?f) ! r = ?m" by simp
    moreover have "created (commit None ?f) = created s @
         (if chunks (with_data (recorders s ! r) b) = [] then []
          else [(length (created s),
                 new_Blob (chunks (with_data (recorders s ! r) b)) ''video/webm'')])"
      using m(3) by (simp add: finish_def)
    ultimately show ?thesis using st m(1,2) by simp
  qed
  have bound: "onstop_calls (recorders s' ! r) \<le> 1"
    if "reachable cv s'" "r < length (recorders s')" for s'
    using inv_recorder_ok[OF reachable_inv[OF that(1)] that(2)] by (simp add: recorder_ok_def)
  have c_stop: "\<forall>b. \<exists>t2. step (StopTask r b) ?t1 = Some t2 \<and>
       onstop_calls (recorders t2 ! r) = 1 \<and> settled (recorders t2 ! r) \<and>
       created t2 = created s @
         (if chunks (with_data (recorders s ! r) b) = [] then []
          else [(length (created s),
                 new_Blob (chunks (with_data (recorders s ! r) b)) ''video/webm'')])"
    using stop by blast
  have c_bound: "\<forall>s'. reachable cv s' \<and> r < length (recorders s') \<longrightarrow>
       onstop_calls (recorders s' ! r) \<le> 1"
    using bound by blast
  have c_rec: "recorders ?s1 = stopped" "recorders ?t1 = stopped" "created ?t1 = created s"
    by simp_all
  show ?thesis
    apply (rule exI[of _ ?s1])
    apply (rule exI[of _ ?t1])
    apply (rule exI[of _ ?t1])
    using s1 s2 t1 click c_rec f(5) c_stop c_bound
    apply (intro conjI)
              apply assumption+
         apply (rule refl)
        apply assumption+
    done
qed

theorem first_stop_wins_witness:
  "\<exists>s. run [Click Started] (mount (Some (Canvas True))) = Some s \<and>
     0 < length (recorders s) \<and> mr_state (recorders s ! 0) = mr_recording \<and>
     map_of (timers s) 1 = Some 0 \<and>
     (\<exists>s1 t1. step (Click Started) s = Some s1 \<and> step (Timeout 1) s1 = Some t1 \<and>
        step (Timeout 1) s = Some t1 \<and> step (Click Started) t1 = Some t1 \<and>
        map mr_state (recorders t1) = [mr_inactive] \<and>
        map stop_task_queued (recorders t1) = [True] \<and>
        (\<exists>t2. step (StopTask 0 (Blob [] ''video/webm'')) t1 = Some t2 \<and>
           onstop_calls (recorders t2 ! 0) = 1 \<and> created t2 = []) \<and>
        (\<exists>t2. step (StopTask 0 (Blob [9] ''video/webm'')) t1 = Some t2 \<and>
           onstop_calls (recorders t2 ! 0) = 1 \<and>
           created t2 = [(0, Blob [9] ''video/webm'')]))"
proof -
  obtain s where s: "run [Click Started] (mount (Some (Canvas True))) = Some s"
    and r: "0 < length (recorders s)" and a: "mr_state (recorders s ! 0) = mr_recording"
    and t: "map_of (timers s) 1 = Some 0"
    and c: "created s = []" "chunks (recorders s ! 0) = []" "length (recorders s) = 1"
    by (simp add: demo_recording del: run.simps)
  have "reachable (Some (Canvas True)) s"
    using run_reachable[OF reachable_mount s] .
  from first_stop_wins[OF this r a t refl, of Started]
  obtain s1 t1 where st: "step (Click Started) s = Some s1" "step (Timeout 1) s1 = Some t1"
    "step (Timeout 1) s = Some t1" "step (Click Started) t1 = Some t1"
    and rec: "recorders t1 = (recorders s)[0 := (recorders s ! 0)
      \<lparr>mr_state := mr_inactive, stop_task_queued := True\<rparr>]"
    and stop: "\<And>b. \<exists>t2. step (StopTask 0 b) t1 = Some t2 \<and>
       onstop_calls (recorders t2 ! 0) = 1 \<and> settled (recorders t2 ! 0) \<and>
       created t2 = created s @
         (if chunks (with_data (recorders s ! 0) b) = [] then []
          else [(length (created s),
                 new_Blob (chunks (with_data (recorders s ! 0) b)) ''video/webm'')])"
    by blast
  from rec c(3) have m: "map mr_state (recorders t1) = [mr_inactive]"
    "map stop_task_queued (recorders t1) = [True]"
    by (cases "recorders s"; simp)+
  from stop[of "Blob [] ''video/webm''"] c
  have e0: "\<exists>t2. step (StopTask 0 (Blob [] ''video/webm'')) t1 = Some t2 \<and>
           onstop_calls (recorders t2 ! 0) = 1 \<and> created t2 = []"
    by (auto simp: with_data_def blob_size_def)
  from stop[of "Blob [9] ''video/webm''"] c
  have e1: "\<exists>t2. step (StopTask 0 (Blob [9] ''video/webm'')) t1 = Some t2 \<and>
           onstop_calls (recorders t2 ! 0) = 1 \<and>
           created t2 = [(0, Blob [9] ''video/webm'')]"
    by (auto simp: with_data_def blob_size_def new_Blob_def)
  show ?thesis
    apply (rule exI[of _ s])
    apply (intro conjI)
        apply (rule s)
       apply (rule r)
      apply (rule a)
     apply (rule t)
    apply (rule exI[of _ s1])
    apply (rule exI[of _ t1])
    using st m e0 e1
    apply (intro conjI)
           apply assumption+
    done
qed

theorem first_stop_wins_counterexample:
  "\<exists>s. run [Click Started, Timeout 1, Click Started, StopTask 0 (Blob [] ''video/webm'')]
        (mount (Some (Canvas True))) = Some s \<and>
     onstop_calls (recorders s ! 0) = 1 \<and> recorderState s = idle \<and> created s = [] \<and>
     downloadUrl s = None \<and> message s = msg_no_data"
  by (simp add: controller_defs)





section \<open>Renderer: rounding to a double\<close>

text \<open>Rounding to an integer.\<close>

lemma round_even_of_int [simp]: "round_even (of_int n) = n"
  by (simp add: round_even_def)

lemma round_even_bounds: "\<lfloor>v\<rfloor> \<le> round_even v" "round_even v \<le> \<lfloor>v\<rfloor> + 1"
  by (simp_all add: round_even_def)

lemma round_even_mono:
  assumes "x \<le> y"
  shows "round_even x \<le> round_even y"
proof (cases "\<lfloor>x\<rfloor> = \<lfloor>y\<rfloor>")
  case True
  then show ?thesis
    using assms by (auto simp add: round_even_def)
next
  case False
  with assms have "\<lfloor>x\<rfloor> + 1 \<le> \<lfloor>y\<rfloor>"
    using floor_mono [of x y] by linarith
  then show ?thesis
    using round_even_bounds(2) [of x] round_even_bounds(1) [of y] by linarith
qed

text \<open>The exponent of a number.\<close>

lemma powr2_int: "2 powr real_of_int k = (2::real) powi k"
  by (simp add: powr_real_of_int')

lemma powr2_int_Suc: "2 powr (real_of_int k + 1) = (2::real) powi (k + 1)"
  using powr2_int [of "k + 1"] by simp

lemma floor_log2_eq:
  assumes "2 powi k \<le> \<bar>v\<bar>" and "\<bar>v\<bar> < 2 powi (k + 1)"
  shows "\<lfloor>log 2 \<bar>v\<bar>\<rfloor> = k"
proof -
  have "0 < \<bar>v\<bar>"
    using assms(1) zero_less_power_int [of "2::real" k] by linarith
  then show ?thesis
    using assms by (simp add: floor_log_eq_powr_iff powr2_int powr2_int_Suc)
qed

lemma floor_log2_bounds:
  assumes "v \<noteq> 0"
  shows "2 powi \<lfloor>log 2 \<bar>v\<bar>\<rfloor> \<le> \<bar>v\<bar>" "\<bar>v\<bar> < 2 powi (\<lfloor>log 2 \<bar>v\<bar>\<rfloor> + 1)"
proof -
  have "0 < \<bar>v\<bar>" using assms by simp
  then have "2 powr real_of_int \<lfloor>log 2 \<bar>v\<bar>\<rfloor> \<le> \<bar>v\<bar>
      \<and> \<bar>v\<bar> < 2 powr real_of_int (\<lfloor>log 2 \<bar>v\<bar>\<rfloor> + 1)"
    using floor_log_eq_powr_iff [of "\<bar>v\<bar>" 2 "\<lfloor>log 2 \<bar>v\<bar>\<rfloor>"] by simp
  then show "2 powi \<lfloor>log 2 \<bar>v\<bar>\<rfloor> \<le> \<bar>v\<bar>" "\<bar>v\<bar> < 2 powi (\<lfloor>log 2 \<bar>v\<bar>\<rfloor> + 1)"
    by (simp_all add: powr2_int powr2_int_Suc)
qed

lemma fl_eval:
  assumes "2 powi k \<le> \<bar>v\<bar>" and "\<bar>v\<bar> < 2 powi (k + 1)" and "- 1022 \<le> k"
  shows "fl v = of_int (round_even (v / 2 powi (k - 52))) * 2 powi (k - 52)"
proof -
  have "0 < \<bar>v\<bar>"
    using assms(1) zero_less_power_int [of "2::real" k] by linarith
  then have "v \<noteq> 0" by auto
  moreover have "ulp_exponent v = k - 52"
    using floor_log2_eq [OF assms(1,2)] assms(3) by (simp add: ulp_exponent_def)
  ultimately show ?thesis by (simp add: fl_def)
qed


text \<open>Rounding leaves the doubles alone, and keeps the order.\<close>

lemma power_int_2_less_cancel: "(2::real) powi a < 2 powi b \<Longrightarrow> a < b"
  using power_int_increasing [of b a "2::real"] by (cases "a < b") simp_all

lemma power_int_2_nat: "0 \<le> d \<Longrightarrow> (2::real) powi d = of_int (2 ^ nat d)"
  by (simp add: power_int_def)

lemma fl_grid:
  assumes "v / 2 powi ulp_exponent v = of_int n"
  shows "fl v = v"
proof (cases "v = 0")
  case False
  have "of_int n * 2 powi ulp_exponent v = v"
    using assms by (simp add: field_simps)
  with False show ?thesis by (simp add: fl_def assms)
qed (simp add: fl_def)

lemma fl_le_grid:
  assumes "v \<le> of_int n * 2 powi ulp_exponent v"
  shows "fl v \<le> of_int n * 2 powi ulp_exponent v"
proof (cases "v = 0")
  case True
  with assms show ?thesis by (simp add: fl_def)
next
  case False
  have p: "(0::real) < 2 powi ulp_exponent v" by simp
  from assms p have "v / 2 powi ulp_exponent v \<le> of_int n"
    by (simp add: pos_divide_le_eq)
  then have "round_even (v / 2 powi ulp_exponent v) \<le> n"
    using round_even_mono [of "v / 2 powi ulp_exponent v" "of_int n"] by simp
  then have "of_int (round_even (v / 2 powi ulp_exponent v)) * (2::real) powi ulp_exponent v
      \<le> of_int n * 2 powi ulp_exponent v"
    using p by (simp add: mult_right_mono)
  with False show ?thesis by (simp add: fl_def)
qed

lemma fl_ge_grid:
  assumes "of_int n * 2 powi ulp_exponent v \<le> v"
  shows "of_int n * 2 powi ulp_exponent v \<le> fl v"
proof (cases "v = 0")
  case True
  with assms show ?thesis by (simp add: fl_def)
next
  case False
  have p: "(0::real) < 2 powi ulp_exponent v" by simp
  from assms p have "of_int n \<le> v / 2 powi ulp_exponent v"
    by (simp add: pos_le_divide_eq)
  then have "n \<le> round_even (v / 2 powi ulp_exponent v)"
    using round_even_mono [of "of_int n" "v / 2 powi ulp_exponent v"] by simp
  then have "of_int n * (2::real) powi ulp_exponent v
      \<le> of_int (round_even (v / 2 powi ulp_exponent v)) * 2 powi ulp_exponent v"
    using p by (simp add: mult_right_mono)
  with False show ?thesis by (simp add: fl_def)
qed

lemma fl_nonneg: "0 \<le> v \<Longrightarrow> 0 \<le> fl v"
  using fl_ge_grid [of 0 v] by simp

lemma fl_exact:
  assumes "\<bar>m\<bar> < 2 ^ 53" and "- 1074 \<le> e"
  shows "fl (of_int m * 2 powi e) = of_int m * 2 powi e"
proof (cases "m = 0")
  case False
  define v :: real where "v = of_int m * 2 powi e"
  have pe: "(0::real) < 2 powi e" by simp
  have v0: "v \<noteq> 0" using False pe by (simp add: v_def)
  have "\<bar>v\<bar> = of_int \<bar>m\<bar> * 2 powi e"
    using pe by (simp add: v_def abs_mult)
  also have "\<dots> < 2 ^ 53 * 2 powi e"
  proof -
    have "(of_int \<bar>m\<bar> :: real) < of_int (2 ^ 53)"
      using assms(1) by (simp only: of_int_less_iff)
    then show ?thesis using pe by (intro mult_strict_right_mono) simp_all
  qed
  also have "\<dots> = 2 powi (53 + e)"
    by (simp add: power_int_add)
  finally have "\<bar>v\<bar> < 2 powi (53 + e)" .
  with floor_log2_bounds(1) [OF v0] have "(2::real) powi \<lfloor>log 2 \<bar>v\<bar>\<rfloor> < 2 powi (53 + e)"
    by linarith
  then have "\<lfloor>log 2 \<bar>v\<bar>\<rfloor> < 53 + e" by (rule power_int_2_less_cancel)
  with assms(2) have le: "ulp_exponent v \<le> e" by (simp add: ulp_exponent_def)
  have "v / 2 powi ulp_exponent v = of_int m * 2 powi (e - ulp_exponent v)"
    by (simp add: v_def power_int_diff)
  also have "\<dots> = of_int (m * 2 ^ nat (e - ulp_exponent v))"
    using le by (simp add: power_int_2_nat)
  finally have "fl v = v" by (rule fl_grid)
  then show ?thesis by (simp add: v_def)
qed (simp add: fl_def)

lemma ulp_exponent_mono:
  assumes "0 < x" and "x \<le> y"
  shows "ulp_exponent x \<le> ulp_exponent y"
proof -
  have "log 2 \<bar>x\<bar> \<le> log 2 \<bar>y\<bar>" using assms by simp
  then have "\<lfloor>log 2 \<bar>x\<bar>\<rfloor> \<le> \<lfloor>log 2 \<bar>y\<bar>\<rfloor>" by (rule floor_mono)
  then show ?thesis by (simp add: ulp_exponent_def)
qed

lemma fl_mono:
  assumes "0 \<le> x" and "x \<le> y"
  shows "fl x \<le> fl y"
proof (cases "x = 0")
  case True
  with assms fl_nonneg [of y] show ?thesis by (simp add: fl_def)
next
  case False
  with assms have x: "0 < x" and y: "0 < y" by simp_all
  have le: "ulp_exponent x \<le> ulp_exponent y" using x assms(2) by (rule ulp_exponent_mono)
  show ?thesis
  proof (cases "ulp_exponent x = ulp_exponent y")
    case True
    have p: "(0::real) < 2 powi ulp_exponent y" by simp
    from assms(2) p have "x / 2 powi ulp_exponent y \<le> y / 2 powi ulp_exponent y"
      by (simp add: divide_right_mono)
    then have "round_even (x / 2 powi ulp_exponent y) \<le> round_even (y / 2 powi ulp_exponent y)"
      by (rule round_even_mono)
    then have "of_int (round_even (x / 2 powi ulp_exponent y)) * (2::real) powi ulp_exponent y
        \<le> of_int (round_even (y / 2 powi ulp_exponent y)) * 2 powi ulp_exponent y"
      using p by (simp add: mult_right_mono)
    with True x y show ?thesis by (simp add: fl_def)
  next
    case False
    with le have lt: "ulp_exponent x < ulp_exponent y" by simp
    define kx where "kx = \<lfloor>log 2 \<bar>x\<bar>\<rfloor>"
    define ky where "ky = \<lfloor>log 2 \<bar>y\<bar>\<rfloor>"
    have ey: "ulp_exponent y = ky - 52" and k: "kx + 1 \<le> ky" and ex: "ulp_exponent x < ky"
      using lt unfolding ulp_exponent_def kx_def ky_def by linarith+
    have bx: "\<bar>x\<bar> < 2 powi (kx + 1)" and by': "2 powi ky \<le> \<bar>y\<bar>"
      using floor_log2_bounds [of x] floor_log2_bounds [of y] x y
      by (simp_all add: kx_def ky_def)
    have "(2::real) powi (kx + 1) \<le> 2 powi ky"
      using k by (intro power_int_increasing) simp_all
    with bx x have xk: "x \<le> 2 powi ky" by simp
    have "(2::real) powi ky = 2 powi (ky - ulp_exponent x) * 2 powi ulp_exponent x"
      by (simp add: power_int_diff)
    also have "\<dots> = of_int (2 ^ nat (ky - ulp_exponent x)) * 2 powi ulp_exponent x"
      using ex by (simp add: power_int_2_nat)
    finally have gx: "(2::real) powi ky
        = of_int (2 ^ nat (ky - ulp_exponent x)) * 2 powi ulp_exponent x" .
    have "fl x \<le> of_int (2 ^ nat (ky - ulp_exponent x)) * 2 powi ulp_exponent x"
      using xk unfolding gx by (rule fl_le_grid)
    then have 1: "fl x \<le> 2 powi ky" by (simp only: gx [symmetric])
    have "(2::real) powi ky = 2 powi 52 * 2 powi (ky - 52)"
      by (simp add: power_int_diff)
    also have "\<dots> = of_int (2 ^ 52) * 2 powi ulp_exponent y"
      by (simp add: ey)
    finally have gy: "(2::real) powi ky = of_int (2 ^ 52) * 2 powi ulp_exponent y" .
    have "of_int (2 ^ 52) * 2 powi ulp_exponent y \<le> fl y"
      using by' y unfolding gy by (intro fl_ge_grid) simp
    then have 2: "2 powi ky \<le> fl y" by (simp only: gy [symmetric])
    from 1 2 show ?thesis by simp
  qed
qed

text \<open>The result of rounding is a double.\<close>

lemma fl_idem: "fl (fl v) = fl v"
proof (cases "v = 0")
  case True
  then show ?thesis by (simp add: fl_def)
next
  case False
  define E where "E = ulp_exponent v"
  define m where "m = round_even (v / 2 powi E)"
  have f: "fl v = of_int m * 2 powi E"
    using False by (simp add: fl_def m_def E_def)
  have E: "- 1074 \<le> E" by (simp add: E_def ulp_exponent_def)
  have p: "(0::real) < 2 powi E" by simp
  have "\<lfloor>log 2 \<bar>v\<bar>\<rfloor> + 1 \<le> E + 53" by (simp add: E_def ulp_exponent_def)
  then have "(2::real) powi (\<lfloor>log 2 \<bar>v\<bar>\<rfloor> + 1) \<le> 2 powi (E + 53)"
    by (intro power_int_increasing) simp_all
  with floor_log2_bounds(2) [OF False] have "\<bar>v\<bar> < 2 powi (E + 53)" by linarith
  also have "\<dots> = 2 ^ 53 * 2 powi E" by (simp add: power_int_add)
  finally have "\<bar>v\<bar> / 2 powi E < 2 ^ 53" using p by (simp add: pos_divide_less_eq)
  moreover have "\<bar>v / 2 powi E\<bar> = \<bar>v\<bar> / 2 powi E" using p by (simp add: abs_divide)
  ultimately have "\<bar>v / 2 powi E\<bar> < 2 ^ 53" by (simp only:)
  then have "- (2 ^ 53) \<le> v / 2 powi E \<and> v / 2 powi E \<le> 2 ^ 53"
    unfolding abs_less_iff by linarith
  then have "of_int (- (2 ^ 53)) \<le> v / 2 powi E" "v / 2 powi E \<le> of_int (2 ^ 53)"
    by simp_all
  then have "- (2 ^ 53) \<le> m" "m \<le> 2 ^ 53"
    using round_even_mono [of "of_int (- (2 ^ 53))" "v / 2 powi E"]
      round_even_mono [of "v / 2 powi E" "of_int (2 ^ 53)"]
    unfolding m_def round_even_of_int by simp_all
  then consider "\<bar>m\<bar> < 2 ^ 53" | "m = 2 ^ 53" | "m = - (2 ^ 53)" by linarith
  then have "fl (of_int m * 2 powi E) = of_int m * 2 powi E"
  proof cases
    case 1
    then show ?thesis using E by (rule fl_exact)
  next
    case 2
    have "fl (of_int 1 * 2 powi (E + 53)) = of_int 1 * 2 powi (E + 53)"
      using E by (intro fl_exact) simp_all
    then show ?thesis by (simp add: 2 power_int_add mult.commute)
  next
    case 3
    have "fl (of_int (- 1) * 2 powi (E + 53)) = of_int (- 1) * 2 powi (E + 53)"
      using E by (intro fl_exact) simp_all
    then show ?thesis by (simp add: 3 power_int_add mult.commute)
  qed
  then show ?thesis by (simp only: f)
qed

lemma round_even_minus: "round_even (- v) = - round_even v"
proof (cases "v = of_int \<lfloor>v\<rfloor>")
  case True
  then obtain n :: int where "v = of_int n" by blast
  then have "round_even (- v) = round_even (of_int (- n))" by simp
  also have "\<dots> = - n" by (rule round_even_of_int)
  finally show ?thesis using \<open>v = of_int n\<close> by simp
next
  case False
  then have "of_int \<lfloor>v\<rfloor> < v" using of_int_floor_le [of v] by linarith
  then have fl: "\<lfloor>- v\<rfloor> = - \<lfloor>v\<rfloor> - 1"
    by linarith
  show ?thesis
    unfolding round_even_def fl by (simp add: algebra_simps)
qed

lemma fl_minus: "fl (- v) = - fl v"
  by (simp add: fl_def ulp_exponent_def round_even_minus)

text \<open>Rounding is odd, hence monotone on all reals.\<close>

lemma fl_monotone:
  assumes "x \<le> y"
  shows "fl x \<le> fl y"
proof -
  consider "0 \<le> x" | "x < 0" "0 \<le> y" | "y < 0" by linarith
  then show ?thesis
  proof cases
    case 1
    then show ?thesis using assms by (rule fl_mono)
  next
    case 2
    then have "0 \<le> fl (- x)" "0 \<le> fl y" by (simp_all add: fl_nonneg)
    then show ?thesis by (simp add: fl_minus)
  next
    case 3
    then have "fl (- y) \<le> fl (- x)" using assms by (intro fl_mono) simp_all
    then show ?thesis by (simp add: fl_minus)
  qed
qed

section \<open>Renderer: the context operations and the loops\<close>

lemmas canvas_defs = clearRect_def fillRect_def fill_def stroke_def save_def restore_def
  translate_def rotate_ctx_def set_fillStyle_def set_strokeStyle_def set_globalAlpha_def
  set_lineWidth_def set_lineCap_def setLineDash_def set_lineDashOffset_def set_shadowColor_def
  set_shadowBlur_def set_globalCompositeOperation_def beginPath_def add_to_path_def moveTo_def
  lineTo_def quadraticCurveTo_def arc_def ellipse_def closePath_def

text \<open>What each operation of the context does to the four parts of the context.\<close>

lemma ops_canvas [simp]:
  "ops (clearRect c x y w h) = ops c @ [ClearRect (transform (cur c)) x y w h]"
  "ops (fillRect c x y w h) = ops c @ [FillRect (compositing_of (cur c)) (fillStyle (cur c)) x y w h]"
  "ops (fill c) = ops c @ [FillPath (compositing_of (cur c)) (fillStyle (cur c)) (path c)]"
  "ops (stroke c) = ops c @ [StrokePath (compositing_of (cur c)) (line_style_of (cur c)) (path c)]"
  "ops (save c) = ops c"
  "ops (restore c) = ops c"
  "ops (translate c tx ty) = ops c"
  "ops (rotate_ctx c t) = ops c"
  "ops (set_fillStyle c st) = ops c"
  "ops (set_strokeStyle c st) = ops c"
  "ops (set_globalAlpha c v) = ops c"
  "ops (set_lineWidth c v) = ops c"
  "ops (set_lineCap c s) = ops c"
  "ops (setLineDash c ds) = ops c"
  "ops (set_lineDashOffset c v) = ops c"
  "ops (set_shadowColor c s) = ops c"
  "ops (set_shadowBlur c v) = ops c"
  "ops (set_globalCompositeOperation c s) = ops c"
  "ops (beginPath c) = ops c"
  "ops (add_to_path c p) = ops c"
  by (simp_all add: canvas_defs split: list.splits)

lemma saved_canvas [simp]:
  "saved (clearRect c x y w h) = saved c"
  "saved (fillRect c x y w h) = saved c"
  "saved (fill c) = saved c"
  "saved (stroke c) = saved c"
  "saved (save c) = cur c # saved c"
  "saved (restore c) = tl (saved c)"
  "saved (translate c tx ty) = saved c"
  "saved (rotate_ctx c t) = saved c"
  "saved (set_fillStyle c st) = saved c"
  "saved (set_strokeStyle c st) = saved c"
  "saved (set_globalAlpha c v) = saved c"
  "saved (set_lineWidth c v) = saved c"
  "saved (set_lineCap c s) = saved c"
  "saved (setLineDash c ds) = saved c"
  "saved (set_lineDashOffset c v) = saved c"
  "saved (set_shadowColor c s) = saved c"
  "saved (set_shadowBlur c v) = saved c"
  "saved (set_globalCompositeOperation c s) = saved c"
  "saved (beginPath c) = saved c"
  "saved (add_to_path c p) = saved c"
  by (simp_all add: canvas_defs split: list.splits)

lemma path_canvas [simp]:
  "path (clearRect c x y w h) = path c"
  "path (fillRect c x y w h) = path c"
  "path (fill c) = path c"
  "path (stroke c) = path c"
  "path (save c) = path c"
  "path (restore c) = path c"
  "path (translate c tx ty) = path c"
  "path (rotate_ctx c t) = path c"
  "path (set_fillStyle c st) = path c"
  "path (set_strokeStyle c st) = path c"
  "path (set_globalAlpha c v) = path c"
  "path (set_lineWidth c v) = path c"
  "path (set_lineCap c s) = path c"
  "path (setLineDash c ds) = path c"
  "path (set_lineDashOffset c v) = path c"
  "path (set_shadowColor c s) = path c"
  "path (set_shadowBlur c v) = path c"
  "path (set_globalCompositeOperation c s) = path c"
  "path (beginPath c) = []"
  "path (add_to_path c p) = path c @ [(transform (cur c), p)]"
  by (simp_all add: canvas_defs split: list.splits)

lemma cur_canvas [simp]:
  "cur (clearRect c x y w h) = cur c"
  "cur (fillRect c x y w h) = cur c"
  "cur (fill c) = cur c"
  "cur (stroke c) = cur c"
  "cur (save c) = cur c"
  "cur (restore c) = (case saved c of [] \<Rightarrow> cur c | d # ds \<Rightarrow> d)"
  "cur (translate c tx ty) = (cur c)\<lparr>transform := m_translate tx ty (transform (cur c))\<rparr>"
  "cur (rotate_ctx c t) = (cur c)\<lparr>transform := m_rotate t (transform (cur c))\<rparr>"
  "cur (set_fillStyle c st) = (cur c)\<lparr>fillStyle := st\<rparr>"
  "cur (set_strokeStyle c st) = (cur c)\<lparr>strokeStyle := st\<rparr>"
  "cur (set_globalAlpha c v) = (cur c)\<lparr>globalAlpha := v\<rparr>"
  "cur (set_lineWidth c v) = (cur c)\<lparr>lineWidth := v\<rparr>"
  "cur (set_lineCap c s) = (cur c)\<lparr>lineCap := s\<rparr>"
  "cur (setLineDash c ds) = (cur c)\<lparr>lineDash := ds\<rparr>"
  "cur (set_lineDashOffset c v) = (cur c)\<lparr>lineDashOffset := v\<rparr>"
  "cur (set_shadowColor c s) = (cur c)\<lparr>shadowColor := s\<rparr>"
  "cur (set_shadowBlur c v) = (cur c)\<lparr>shadowBlur := v\<rparr>"
  "cur (set_globalCompositeOperation c s) = (cur c)\<lparr>globalCompositeOperation := s\<rparr>"
  "cur (beginPath c) = cur c"
  "cur (add_to_path c p) = cur c"
  by (simp_all add: canvas_defs split: list.splits)

lemmas path_defs = moveTo_def lineTo_def quadraticCurveTo_def arc_def ellipse_def closePath_def

text \<open>
  The equations of the two counting loops are unfolded by hand: left to the simplifier,
  a loop with a symbolic bound would be unfolded without end.
\<close>

declare for_count.simps [simp del]
declare for_step8.simps [simp del]

text \<open>The loops leave the stack of saved states alone when their bodies do.\<close>

lemma saved_forEach_from:
  "\<forall>a i c. saved (body a i c) = saved c \<Longrightarrow> saved (forEach_from xs body i c) = saved c"
  by (induction xs arbitrary: i c) simp_all

lemma saved_forEach [simp]:
  "\<forall>a i c. saved (body a i c) = saved c \<Longrightarrow> saved (forEach xs body c) = saved c"
  by (simp add: forEach_def saved_forEach_from)

lemma saved_for_count [simp]:
  "\<forall>i c. saved (body i c) = saved c \<Longrightarrow> saved (for_count i n body c) = saved c"
  by (induction i n body c rule: for_count.induct) (simp add: for_count.simps)

lemma saved_for_step8 [simp]:
  "\<forall>i c. saved (body i c) = saved c \<Longrightarrow> saved (for_step8 i b body c) = saved c"
  by (induction i b body c rule: for_step8.induct) (simp add: for_step8.simps)

text \<open>A loop keeps two contexts related when its body does.\<close>

lemma related_forEach_from:
  assumes "\<forall>a i c1 c2. related V o1 o2 c1 c2 \<longrightarrow> related V o1 o2 (body a i c1) (body a i c2)"
    and "related V o1 o2 c1 c2"
  shows "related V o1 o2 (forEach_from xs body i c1) (forEach_from xs body i c2)"
  using assms by (induction xs arbitrary: i c1 c2) simp_all

lemma related_forEach:
  assumes "\<forall>a i c1 c2. related V o1 o2 c1 c2 \<longrightarrow> related V o1 o2 (body a i c1) (body a i c2)"
    and "related V o1 o2 c1 c2"
  shows "related V o1 o2 (forEach xs body c1) (forEach xs body c2)"
  using assms by (simp add: forEach_def related_forEach_from)

lemma related_for_count:
  assumes "\<forall>i c1 c2. related V o1 o2 c1 c2 \<longrightarrow> related V o1 o2 (body i c1) (body i c2)"
    and "related V o1 o2 c1 c2"
  shows "related V o1 o2 (for_count i n body c1) (for_count i n body c2)"
  using assms
proof (induction i n body c1 arbitrary: c2 rule: for_count.induct)
  case (1 i n body c1)
  show ?case
  proof (cases "i < n")
    case True
    from 1(2,3) have "related V o1 o2 (body i c1) (body i c2)" by blast
    from "1.IH"[OF True 1(2) this] True show ?thesis
      by (simp add: for_count.simps[of i])
  next
    case False
    with 1(3) show ?thesis by (simp add: for_count.simps[of i])
  qed
qed

lemma related_for_step8:
  assumes "\<forall>i c1 c2. related V o1 o2 c1 c2 \<longrightarrow> related V o1 o2 (body i c1) (body i c2)"
    and "related V o1 o2 c1 c2"
  shows "related V o1 o2 (for_step8 i b body c1) (for_step8 i b body c2)"
  using assms
proof (induction i b body c1 arbitrary: c2 rule: for_step8.induct)
  case (1 i b body c1)
  show ?case
  proof (cases "i < b")
    case True
    from 1(2,3) have "related V o1 o2 (body i c1) (body i c2)" by blast
    from "1.IH"[OF True 1(2) this] True show ?thesis
      by (simp add: for_step8.simps[of i])
  next
    case False
    with 1(3) show ?thesis by (simp add: for_step8.simps[of i])
  qed
qed

lemma related_weaken:
  assumes "related V o1 o2 c1 c2" and "V c1 = V c2 \<Longrightarrow> W c1 = W c2"
  shows "related W o1 o2 c1 c2"
  using assms by (auto simp: related_def)

text \<open>\<open>restore\<close> at the end of a block that began with \<open>save\<close>.\<close>

lemma related_restore:
  assumes "related V o1 o2 c1 c2" and "saved c1 \<noteq> []" and "saved c2 \<noteq> []"
    and "ambient (hd (saved c1)) = ambient (hd (saved c2))"
  shows "related (\<lambda>c. ambient (cur c)) o1 o2 (restore c1) (restore c2)"
  using assms by (cases "saved c1"; cases "saved c2") (auto simp: related_def)

lemmas view_defs = related_def ambient_def compositing_of_def line_style_of_def

lemma saved_bodies [simp]:
  "saved (drawSky_star w h t a i c) = saved c"
  "saved (drawSkyline_building w sh by b i c) = saved c"
  "saved (drawAtmospherics_glow w h t n k c) = saved c"
  "saved (drawAtmospherics_wave h t x c) = saved c"
  by (simp_all add: drawSky_star_def drawSkyline_building_def drawAtmospherics_glow_def
      drawAtmospherics_wave_def Let_def path_defs)

lemma drawSky_star_related:
  "related (\<lambda>c. (ambient (cur c), fillStyle (cur c))) o1 o2 c1 c2 \<Longrightarrow>
   related (\<lambda>c. (ambient (cur c), fillStyle (cur c))) o1 o2
     (drawSky_star w h t a i c1) (drawSky_star w h t a i c2)"
  by (auto simp: view_defs drawSky_star_def Let_def path_defs)

lemma drawSkyline_building_related:
  "related (\<lambda>c. ambient (cur c)) o1 o2 c1 c2 \<Longrightarrow>
   related (\<lambda>c. ambient (cur c)) o1 o2
     (drawSkyline_building w sh by b i c1) (drawSkyline_building w sh by b i c2)"
  by (auto simp: view_defs drawSkyline_building_def Let_def)

lemma drawAtmospherics_glow_related:
  "related (\<lambda>c. ambient (cur c)) o1 o2 c1 c2 \<Longrightarrow>
   related (\<lambda>c. ambient (cur c)) o1 o2
     (drawAtmospherics_glow w h t n k c1) (drawAtmospherics_glow w h t n k c2)"
  by (auto simp: view_defs drawAtmospherics_glow_def Let_def)

lemma drawAtmospherics_wave_related:
  "related (\<lambda>c. (ambient (cur c), strokeStyle (cur c), lineWidth (cur c), path c)) o1 o2 c1 c2 \<Longrightarrow>
   related (\<lambda>c. (ambient (cur c), strokeStyle (cur c), lineWidth (cur c), path c)) o1 o2
     (drawAtmospherics_wave h t x c1) (drawAtmospherics_wave h t x c2)"
  by (auto simp: view_defs drawAtmospherics_wave_def Let_def path_defs)

lemma drawSky_related:
  assumes "related (\<lambda>c. ambient (cur c)) o1 o2 c1 c2"
  shows "related (\<lambda>c. ambient (cur c)) o1 o2 (drawSky c1 w h stars t) (drawSky c2 w h stars t)"
  unfolding drawSky_def Let_def
  apply (rule related_restore[where V = "\<lambda>c. (ambient (cur c), fillStyle (cur c))"])
     apply (rule related_forEach)
      apply (simp add: drawSky_star_related)
  using assms
     apply (auto simp: view_defs)
  done

section \<open>Renderer: a frame does not depend on the frames before it\<close>

lemma drawSkyline_related:
  assumes "related (\<lambda>c. ambient (cur c)) o1 o2 c1 c2"
  shows "related (\<lambda>c. ambient (cur c)) o1 o2
    (drawSkyline c1 w h skyline t) (drawSkyline c2 w h skyline t)"
  unfolding drawSkyline_def Let_def
  apply (rule related_restore[where V = "\<lambda>c. ambient (cur c)"])
     apply (rule related_forEach)
      apply (simp add: drawSkyline_building_related)
  using assms
     apply (auto simp: view_defs)
  done

lemma drawStreet_related:
  assumes "related (\<lambda>c. ambient (cur c)) o1 o2 c1 c2"
  shows "related (\<lambda>c. ambient (cur c)) o1 o2 (drawStreet c1 w h t) (drawStreet c2 w h t)"
  using assms
  by (auto simp: view_defs drawStreet_def Let_def path_defs)

lemma related_ambientD:
  assumes "related (\<lambda>c. ambient (cur c)) o1 o2 c1 c2"
  shows "transform (cur c1) = transform (cur c2)" "globalAlpha (cur c1) = globalAlpha (cur c2)"
    "lineCap (cur c1) = lineCap (cur c2)" "lineDash (cur c1) = lineDash (cur c2)"
    "lineDashOffset (cur c1) = lineDashOffset (cur c2)"
    "shadowColor (cur c1) = shadowColor (cur c2)" "shadowBlur (cur c1) = shadowBlur (cur c2)"
    "globalCompositeOperation (cur c1) = globalCompositeOperation (cur c2)"
  using assms by (simp_all add: related_def ambient_def)

lemma related_ambientI:
  assumes "related (\<lambda>c. ambient (cur c)) o1 o2 c1 c2"
    and "ambient (cur d1) = ambient (cur d2)"
    and "\<exists>ys. ops d1 = ops c1 @ ys \<and> ops d2 = ops c2 @ ys"
  shows "related (\<lambda>c. ambient (cur c)) o1 o2 d1 d2"
  using assms by (auto simp: related_def)

lemma drawCharacter_related:
  assumes r: "related (\<lambda>c. ambient (cur c)) o1 o2 c1 c2"
  shows "related (\<lambda>c. ambient (cur c)) o1 o2
    (drawCharacter c1 w h cp wp) (drawCharacter c2 w h cp wp)"
proof (rule related_ambientI[OF r])
  note f = related_ambientD[OF r]
  show "ambient (cur (drawCharacter c1 w h cp wp)) = ambient (cur (drawCharacter c2 w h cp wp))"
    by (simp add: drawCharacter_def drawLimb_def drawRoundedRect_def Let_def path_defs
        ambient_def f)
  show "\<exists>ys. ops (drawCharacter c1 w h cp wp) = ops c1 @ ys \<and>
    ops (drawCharacter c2 w h cp wp) = ops c2 @ ys"
    by (simp add: drawCharacter_def drawLimb_def drawRoundedRect_def Let_def path_defs
        compositing_of_def line_style_of_def f)
qed

lemma related_silent:
  "related (\<lambda>c. V (beginPath c)) o1 o2 c1 c2 \<Longrightarrow> related V o1 o2 (beginPath c1) (beginPath c2)"
  "related (\<lambda>c. V (set_lineWidth c v)) o1 o2 c1 c2 \<Longrightarrow>
     related V o1 o2 (set_lineWidth c1 v) (set_lineWidth c2 v)"
  "related (\<lambda>c. V (set_strokeStyle c st)) o1 o2 c1 c2 \<Longrightarrow>
     related V o1 o2 (set_strokeStyle c1 st) (set_strokeStyle c2 st)"
  "related (\<lambda>c. V (set_globalCompositeOperation c s)) o1 o2 c1 c2 \<Longrightarrow>
     related V o1 o2 (set_globalCompositeOperation c1 s) (set_globalCompositeOperation c2 s)"
  by (simp_all add: related_def)

lemma related_stroke:
  "related (\<lambda>c. (ambient (cur c), strokeStyle (cur c), lineWidth (cur c), path c)) o1 o2 c1 c2 \<Longrightarrow>
   related (\<lambda>c. (ambient (cur c), strokeStyle (cur c), lineWidth (cur c), path c)) o1 o2
     (stroke c1) (stroke c2)"
  by (auto simp: view_defs)

lemma drawAtmospherics_related:
  assumes "related (\<lambda>c. ambient (cur c)) o1 o2 c1 c2"
  shows "related (\<lambda>c. ambient (cur c)) o1 o2
    (drawAtmospherics c1 w h t) (drawAtmospherics c2 w h t)"
  unfolding drawAtmospherics_def Let_def
  apply (rule related_restore[where
        V = "\<lambda>c. (ambient (cur c), strokeStyle (cur c), lineWidth (cur c), path c)"])
     apply (rule related_stroke)
     apply (rule related_for_step8)
      apply (simp add: drawAtmospherics_wave_related)
     apply (rule related_silent)
     apply (rule related_silent)
     apply (rule related_silent)
     apply (rule related_silent)
     apply (rule related_weaken[where V = "\<lambda>c. ambient (cur c)"])
      apply (rule related_for_count)
       apply (simp add: drawAtmospherics_glow_related)
  using assms
      apply (auto simp: view_defs)
  done

lemma clearRect_related:
  assumes "related (\<lambda>c. ambient (cur c)) o1 o2 c1 c2"
  shows "related (\<lambda>c. ambient (cur c)) o1 o2 (clearRect c1 x y w h) (clearRect c2 x y w h)"
  using assms by (auto simp: view_defs)

lemma renderFrame_related:
  assumes "related (\<lambda>c. ambient (cur c)) o1 o2 c1 c2"
  shows "related (\<lambda>c. ambient (cur c)) o1 o2
    (renderFrame c1 cp wp stars skyline t) (renderFrame c2 cp wp stars skyline t)"
  unfolding renderFrame_def Let_def
  by (intro drawAtmospherics_related drawCharacter_related drawStreet_related
      drawSkyline_related drawSky_related clearRect_related assms)

lemma draw_related:
  assumes "related (\<lambda>c. ambient (cur c)) o1 o2 c1 c2"
  shows "related (\<lambda>c. ambient (cur c)) o1 o2 (draw stars skyline t c1) (draw stars skyline t c2)"
  unfolding draw_def using assms by (rule renderFrame_related)

lemma related_refl: "related V (ops c) (ops c) c c"
  by (simp add: related_def)

text \<open>A frame appends to the log and leaves the ambient state as it found it.\<close>

lemma draw_frame:
  "ambient (cur (draw stars skyline t c)) = ambient (cur c) \<and>
   (\<exists>ys. ops (draw stars skyline t c) = ops c @ ys)"
proof -
  have "ambient (cur (draw stars skyline t c)) = ambient (cur c)"
    by (simp add: draw_def renderFrame_def drawSky_def drawSkyline_def drawStreet_def
        drawCharacter_def drawAtmospherics_def drawLimb_def drawRoundedRect_def Let_def
        path_defs ambient_def)
  moreover from draw_related[OF related_refl[of "\<lambda>c. ambient (cur c)" c], of stars skyline t]
  have "\<exists>ys. ops (draw stars skyline t c) = ops c @ ys"
    by (auto simp: related_def)
  ultimately show ?thesis by simp
qed

lemma animate_frame:
  "ambient (cur (animate stars skyline ts c)) = ambient (cur c) \<and>
   (\<exists>ys. ops (animate stars skyline ts c) = ops c @ ys)"
proof (induction ts arbitrary: c)
  case Nil
  then show ?case by simp
next
  case (Cons t ts)
  from Cons.IH[of "draw stars skyline t c"] draw_frame[of stars skyline t c]
  show ?case by auto
qed

lemma painted_related:
  assumes "related V (ops c1) (ops c2) d1 d2"
  shows "painted c1 d1 = painted c2 d2"
  using assms by (auto simp: related_def painted_def)

text \<open>A frame begins by clearing the rectangle of the canvas.\<close>

lemma renderFrame_clears_first:
  "\<exists>ys. painted c (renderFrame c cp wp stars skyline t)
     = ClearRect (transform (cur c)) 0 0 CANVAS_WIDTH CANVAS_HEIGHT # ys"
proof -
  define c1 where "c1 = clearRect c 0 0 CANVAS_WIDTH CANVAS_HEIGHT"
  have "related (\<lambda>c. ambient (cur c)) (ops c1) (ops c1) c1 c1" by (rule related_refl)
  then have "related (\<lambda>c. ambient (cur c)) (ops c1) (ops c1)
      (renderFrame c cp wp stars skyline t) (renderFrame c cp wp stars skyline t)"
    unfolding renderFrame_def Let_def c1_def
    by (intro drawAtmospherics_related drawCharacter_related drawStreet_related
        drawSkyline_related drawSky_related)
  then obtain xs where "ops (renderFrame c cp wp stars skyline t) = ops c1 @ xs"
    by (auto simp: related_def)
  then show ?thesis by (simp add: painted_def c1_def)
qed

text \<open>Clearing a rectangle that covers the canvas leaves the bitmap blank.\<close>

lemma paint_clear_canvas:
  assumes "real W \<le> k * CANVAS_WIDTH" and "real H \<le> k * CANVAS_HEIGHT"
  shows "paint W H rast bmp (ClearRect (k, 0, 0, k, 0, 0) 0 0 CANVAS_WIDTH CANVAS_HEIGHT)
    = (\<lambda>px. transparent_black)"
proof
  fix px :: pixel
  show "paint W H rast bmp (ClearRect (k, 0, 0, k, 0, 0) 0 0 CANVAS_WIDTH CANVAS_HEIGHT) px
    = transparent_black"
  proof (cases "on_canvas W H px")
    case True
    then have px: "real (fst px) + 1 \<le> real W" "real (snd px) + 1 \<le> real H"
      by (simp_all add: on_canvas_def)
    with assms have le: "real (fst px) + 1 \<le> k * 960" "real (snd px) + 1 \<le> k * 540"
      by (simp_all add: CANVAS_WIDTH_def CANVAS_HEIGHT_def)
    then have "0 < k * 960" by linarith
    then have "0 < k" by (simp add: zero_less_mult_iff)
    with le have "pixel_inside (k, 0, 0, k, 0, 0) 0 0 CANVAS_WIDTH CANVAS_HEIGHT px"
      by (simp add: pixel_inside_def CANVAS_WIDTH_def CANVAS_HEIGHT_def)
    then show ?thesis by (simp add: paint_def)
  next
    case False
    then show ?thesis by (simp add: paint_def)
  qed
qed

lemma paint_all_after_clear:
  assumes "real W \<le> k * CANVAS_WIDTH" and "real H \<le> k * CANVAS_HEIGHT"
  shows "paint_all W H rast
      (xs @ ClearRect (k, 0, 0, k, 0, 0) 0 0 CANVAS_WIDTH CANVAS_HEIGHT # ys) bmp
    = paint_all W H rast ys (\<lambda>px. transparent_black)"
  by (simp add: paint_all_def paint_clear_canvas [OF assms])

text \<open>
  Claim C3. Rendering is a function of the elapsed time and the two datasets. After any
  sequence of earlier frames (at any times), the call of \<open>draw\<close> for the time \<open>t\<close>
  issues the same sequence of painting operations, each with the same effective
  transform, styles and path, as the same call on the context before those frames: what
  \<open>renderFrame\<close> leaves behind in the context (\<open>fillStyle\<close>, \<open>strokeStyle\<close>,
  \<open>lineWidth\<close>, the current path) is overwritten before it is read. The first of these
  operations clears the whole canvas, so no pixel survives from one frame to the next: for
  every rasteriser, the bitmap after the frame, starting from any bitmap \<open>before\<close> and
  going through all the earlier frames, is the bitmap the operations of this frame alone
  produce on \<open>any\<close> bitmap. The canvas is \<open>W\<close> by \<open>H\<close> pixels and the context scales
  by \<open>k\<close>, as \<open>updateCanvasSize\<close> sets them up (\<open>canvas.width = CANVAS_WIDTH * ratio\<close>,
  \<open>ctx.scale(ratio, ratio)\<close>): the rectangle of 960 by 540 units covers the canvas.
\<close>

theorem frame_depends_on_time_and_datasets_only:
  "painted (animate stars skyline ts ctx)
        (draw stars skyline t (animate stars skyline ts ctx))
      = painted ctx (draw stars skyline t ctx)
    \<and> (transform (cur ctx) = (k, 0, 0, k, 0, 0)
         \<and> real W \<le> k * CANVAS_WIDTH \<and> real H \<le> k * CANVAS_HEIGHT \<longrightarrow>
       paint_all W H rast (ops (draw stars skyline t (animate stars skyline ts ctx))) before
         = paint_all W H rast (painted ctx (draw stars skyline t ctx)) any)"
proof -
  let ?c = "animate stars skyline ts ctx"
  have "ambient (cur ?c) = ambient (cur ctx)" using animate_frame by blast
  then have "related (\<lambda>c. ambient (cur c)) (ops ?c) (ops ctx) ?c ctx"
    by (simp add: related_def)
  then have "related (\<lambda>c. ambient (cur c)) (ops ?c) (ops ctx)
    (draw stars skyline t ?c) (draw stars skyline t ctx)"
    by (rule draw_related)
  then have same: "painted ?c (draw stars skyline t ?c) = painted ctx (draw stars skyline t ctx)"
    by (rule painted_related)
  have "paint_all W H rast (ops (draw stars skyline t ?c)) before
      = paint_all W H rast (painted ctx (draw stars skyline t ctx)) any"
    if tr: "transform (cur ctx) = (k, 0, 0, k, 0, 0)"
      and W: "real W \<le> k * CANVAS_WIDTH" and H: "real H \<le> k * CANVAS_HEIGHT"
  proof -
    obtain ys where ys: "painted ctx (draw stars skyline t ctx)
        = ClearRect (k, 0, 0, k, 0, 0) 0 0 CANVAS_WIDTH CANVAS_HEIGHT # ys"
      using renderFrame_clears_first [of ctx "cycleProgress_of t" "walkPhase_of t" stars skyline t]
      unfolding draw_def tr by blast
    obtain zs where "ops (draw stars skyline t ?c) = ops ?c @ zs"
      using draw_frame by blast
    then have "ops (draw stars skyline t ?c) = ops ?c @ painted ?c (draw stars skyline t ?c)"
      by (simp add: painted_def)
    then have log: "ops (draw stars skyline t ?c)
        = ops ?c @ ClearRect (k, 0, 0, k, 0, 0) 0 0 CANVAS_WIDTH CANVAS_HEIGHT # ys"
      by (simp only: same ys)
    have "paint_all W H rast (ops (draw stars skyline t ?c)) before
        = paint_all W H rast ys (\<lambda>px. transparent_black)"
      unfolding log by (rule paint_all_after_clear [OF W H])
    moreover have "paint_all W H rast (painted ctx (draw stars skyline t ctx)) any
        = paint_all W H rast ys (\<lambda>px. transparent_black)"
      unfolding ys using paint_all_after_clear [OF W H, of rast "[]" ys any] by simp
    ultimately show ?thesis by simp
  qed
  with same show ?thesis by blast
qed

theorem frame_depends_on_time_and_datasets_only_witness:
  "transform (cur getContext) = (1, 0, 0, 1, 0, 0)
   \<and> real 960 \<le> 1 * CANVAS_WIDTH \<and> real 540 \<le> 1 * CANVAS_HEIGHT
   \<and> painted (animate [] [] [0, 700] getContext)
        (draw [] [] 350 (animate [] [] [0, 700] getContext))
      = painted getContext (draw [] [] 350 getContext)
   \<and> paint_all 960 540 (\<lambda>p bmp. bmp)
        (ops (draw [] [] 350 (animate [] [] [0, 700] getContext))) (\<lambda>px. (1, 2, 3, 255))
      = paint_all 960 540 (\<lambda>p bmp. bmp) (painted getContext (draw [] [] 350 getContext))
          (\<lambda>px. transparent_black)"
proof -
  have 1: "transform (cur getContext) = (1, 0, 0, 1, 0, 0)"
    by (simp add: getContext_def default_state_def)
  have 2: "real 960 \<le> 1 * CANVAS_WIDTH" "real 540 \<le> 1 * CANVAS_HEIGHT"
    by (simp_all add: CANVAS_WIDTH_def CANVAS_HEIGHT_def)
  from frame_depends_on_time_and_datasets_only [of "[]" "[]" "[0, 700]" getContext 350 1 960 540
      "\<lambda>p bmp. bmp" "\<lambda>px. (1, 2, 3, 255)" "\<lambda>px. transparent_black"]
    1 2
  show ?thesis by blast
qed

section \<open>Renderer: cycle progress\<close>

text \<open>The remainder for a non-negative dividend.\<close>

lemma js_rem_nonneg:
  assumes "0 \<le> a" "0 < b"
  shows "js_rem a b = a - b * of_int \<lfloor>a / b\<rfloor>"
  using assms by (simp add: js_rem_def js_trunc_def)


lemma js_rem_small:
  assumes "0 \<le> a" "a < b"
  shows "js_rem a b = a"
proof -
  have "\<lfloor>a / b\<rfloor> = 0" using assms by (simp add: floor_eq_iff)
  then show ?thesis using assms by (simp add: js_rem_nonneg)
qed



lemma ulp_exponent_abs: "ulp_exponent \<bar>v\<bar> = ulp_exponent v"
  by (simp add: ulp_exponent_def)

lemma ulp_exponent_lower: "- 1074 \<le> ulp_exponent v"
  by (simp add: ulp_exponent_def)

lemma double_significand:
  assumes "fl v = v"
  shows "\<exists>m::int. v = of_int m * 2 powi ulp_exponent v \<and> \<bar>m\<bar> < 2 ^ 53"
proof (cases "v = 0")
  case True
  then show ?thesis by (intro exI [of _ 0]) simp
next
  case False
  define m where "m = round_even (v / 2 powi ulp_exponent v)"
  have v: "v = of_int m * 2 powi ulp_exponent v"
    using assms False by (simp add: fl_def m_def)
  have p: "(0::real) < 2 powi ulp_exponent v" by simp
  have "\<lfloor>log 2 \<bar>v\<bar>\<rfloor> + 1 \<le> ulp_exponent v + 53" by (simp add: ulp_exponent_def)
  then have "(2::real) powi (\<lfloor>log 2 \<bar>v\<bar>\<rfloor> + 1) \<le> 2 powi (ulp_exponent v + 53)"
    by (intro power_int_increasing) simp_all
  with floor_log2_bounds(2) [OF False] have "\<bar>v\<bar> < 2 powi (ulp_exponent v + 53)" by linarith
  also have "\<dots> = 2 ^ 53 * 2 powi ulp_exponent v"
    by (simp add: power_int_add)
  finally have "\<bar>v\<bar> < 2 ^ 53 * 2 powi ulp_exponent v" .
  then have "\<bar>of_int m * (2::real) powi ulp_exponent v\<bar> < 2 ^ 53 * 2 powi ulp_exponent v"
    by (simp only: v [symmetric])
  then have "\<bar>of_int m :: real\<bar> * 2 powi ulp_exponent v < 2 ^ 53 * 2 powi ulp_exponent v"
    by (simp add: abs_mult)
  then have "\<bar>of_int m :: real\<bar> < 2 ^ 53" using p by (simp only: mult_less_cancel_right_pos)
  then have "(of_int \<bar>m\<bar> :: real) < of_int (2 ^ 53)" by simp
  then have "\<bar>m\<bar> < 2 ^ 53" by (simp only: of_int_less_iff)
  with v show ?thesis by blast
qed

lemma js_trunc_close: "\<bar>q - of_int (js_trunc q)\<bar> < 1"
  unfolding js_trunc_def by (cases "0 \<le> q") (simp_all, linarith+)

lemma js_rem_less:
  assumes "b \<noteq> 0"
  shows "\<bar>js_rem a b\<bar> < \<bar>b\<bar>"
proof -
  have "js_rem a b = b * (a / b - of_int (js_trunc (a / b)))"
    using assms by (simp add: js_rem_def algebra_simps)
  then have "\<bar>js_rem a b\<bar> = \<bar>b\<bar> * \<bar>a / b - of_int (js_trunc (a / b))\<bar>"
    by (simp add: abs_mult)
  also have "\<dots> < \<bar>b\<bar> * 1"
    using assms js_trunc_close [of "a / b"] by (intro mult_strict_left_mono) simp_all
  finally show ?thesis by simp
qed

lemma js_trunc_small: "\<bar>q\<bar> < 1 \<Longrightarrow> js_trunc q = 0"
  unfolding js_trunc_def by (cases "0 \<le> q") (simp_all add: floor_eq_iff ceiling_eq_iff)

lemma js_rem_smaller:
  assumes "\<bar>a\<bar> < \<bar>b\<bar>"
  shows "js_rem a b = a"
proof -
  have "\<bar>a / b\<bar> < 1" using assms by simp
  then have "js_trunc (a / b) = 0" by (rule js_trunc_small)
  then show ?thesis by (simp add: js_rem_def)
qed

text \<open>The remainder of two doubles is a double: \<open>%\<close> does not round.\<close>

lemma js_rem_exact:
  assumes "is_double a" and "is_double b" and "b \<noteq> 0"
  shows "is_double (js_rem a b)"
proof (cases "\<bar>a\<bar> < \<bar>b\<bar>")
  case True
  with assms(1) show ?thesis by (simp add: js_rem_smaller)
next
  case False
  then have ab: "\<bar>b\<bar> \<le> \<bar>a\<bar>" by simp
  have b0: "0 < \<bar>b\<bar>" using assms(3) by simp
  have le: "ulp_exponent b \<le> ulp_exponent a"
    using ulp_exponent_mono [OF b0 ab] by (simp add: ulp_exponent_abs)
  obtain ma :: int where ma: "a = of_int ma * 2 powi ulp_exponent a"
    using double_significand [of a] assms(1) by (auto simp: is_double_def)
  obtain mb :: int where mb: "b = of_int mb * 2 powi ulp_exponent b" "\<bar>mb\<bar> < 2 ^ 53"
    using double_significand [of b] assms(2) by (auto simp: is_double_def)
  define n where "n = js_trunc (a / b)"
  define mr where "mr = ma * 2 ^ nat (ulp_exponent a - ulp_exponent b) - mb * n"
  have p: "(0::real) < 2 powi ulp_exponent b" by simp
  have "(2::real) powi ulp_exponent a
      = 2 powi (ulp_exponent a - ulp_exponent b) * 2 powi ulp_exponent b"
    by (simp add: power_int_diff)
  also have "\<dots> = of_int (2 ^ nat (ulp_exponent a - ulp_exponent b)) * 2 powi ulp_exponent b"
    using le by (simp add: power_int_2_nat)
  finally have ea: "(2::real) powi ulp_exponent a
      = of_int (2 ^ nat (ulp_exponent a - ulp_exponent b)) * 2 powi ulp_exponent b" .
  have "js_rem a b = of_int ma * 2 powi ulp_exponent a
      - of_int mb * 2 powi ulp_exponent b * of_int n"
    using ma mb(1) by (simp add: js_rem_def n_def)
  also have "\<dots> = of_int mr * 2 powi ulp_exponent b"
    unfolding ea by (simp add: mr_def algebra_simps)
  finally have r: "js_rem a b = of_int mr * 2 powi ulp_exponent b" .
  have "\<bar>js_rem a b\<bar> < \<bar>b\<bar>" using assms(3) by (rule js_rem_less)
  then have "\<bar>of_int mr * (2::real) powi ulp_exponent b\<bar>
      < \<bar>of_int mb * 2 powi ulp_exponent b\<bar>"
    by (simp only: r mb(1) [symmetric])
  then have "\<bar>of_int mr :: real\<bar> * 2 powi ulp_exponent b
      < \<bar>of_int mb\<bar> * 2 powi ulp_exponent b"
    by (simp add: abs_mult)
  then have "\<bar>of_int mr :: real\<bar> < \<bar>of_int mb\<bar>"
    using p by (simp only: mult_less_cancel_right_pos)
  then have "(of_int \<bar>mr\<bar> :: real) < of_int \<bar>mb\<bar>" by simp
  then have "\<bar>mr\<bar> < \<bar>mb\<bar>" by (simp only: of_int_less_iff)
  with mb(2) have "\<bar>mr\<bar> < 2 ^ 53" by simp
  then have "fl (of_int mr * 2 powi ulp_exponent b) = of_int mr * 2 powi ulp_exponent b"
    using ulp_exponent_lower by (rule fl_exact)
  then have 1: "fl (js_rem a b) = js_rem a b" by (simp only: r)
  have 2: "ulp_exponent (js_rem a b) \<le> 971"
  proof (cases "js_rem a b = 0")
    case True
    then show ?thesis by (simp add: ulp_exponent_def log_def)
  next
    case False
    then have "0 < \<bar>js_rem a b\<bar>" by simp
    moreover have "\<bar>js_rem a b\<bar> \<le> \<bar>b\<bar>" using js_rem_less [OF assms(3), of a] by simp
    ultimately have "ulp_exponent \<bar>js_rem a b\<bar> \<le> ulp_exponent \<bar>b\<bar>"
      by (rule ulp_exponent_mono)
    with assms(2) show ?thesis by (simp add: ulp_exponent_abs is_double_def)
  qed
  from 1 2 show ?thesis by (simp add: is_double_def)
qed






















section \<open>Renderer: what the skyline paints\<close>

text \<open>What \<open>drawSkyline\<close> paints: two rectangles for each building, in order.\<close>

lemma drawSkyline_building_parts:
  "compositing_of (cur (drawSkyline_building w sh by b i c)) = compositing_of (cur c)"
  "ops (drawSkyline_building w sh by b i c) = ops c @
     [FillRect (compositing_of (cur c)) (Color ''#0b1c3f'')
        (js_mul (seg_base b) w) (js_sub by (js_mul sh (seg_height b)))
        (js_mul (seg_width b) w) (js_mul sh (seg_height b)),
      FillRect (compositing_of (cur c)) (Color ''rgba(148, 197, 255, 0.06)'')
        (js_add (js_mul (seg_base b) w) (js_mul (js_mul (seg_width b) w) (js_lit 0.1)))
        (js_sub by (js_mul sh (seg_height b)))
        (js_mul (js_mul (seg_width b) w) (js_lit 0.2)) (js_mul sh (seg_height b))]"
  by (simp_all add: drawSkyline_building_def Let_def compositing_of_def)

lemma ops_forEach_building:
  "ops (forEach_from sky (drawSkyline_building w sh by) i c) = ops c @
     concat (map (\<lambda>b.
       [FillRect (compositing_of (cur c)) (Color ''#0b1c3f'')
          (js_mul (seg_base b) w) (js_sub by (js_mul sh (seg_height b)))
          (js_mul (seg_width b) w) (js_mul sh (seg_height b)),
        FillRect (compositing_of (cur c)) (Color ''rgba(148, 197, 255, 0.06)'')
          (js_add (js_mul (seg_base b) w) (js_mul (js_mul (seg_width b) w) (js_lit 0.1)))
          (js_sub by (js_mul sh (seg_height b)))
          (js_mul (js_mul (seg_width b) w) (js_lit 0.2)) (js_mul sh (seg_height b))]) sky)"
  by (induction sky arbitrary: i c) (simp_all add: drawSkyline_building_parts)

lemma painted_drawSkyline:
  "painted c (drawSkyline c w h sky t) =
     concat (map (\<lambda>b.
       [FillRect (compositing_of ((cur c)\<lparr>transform :=
            m_translate (- skyline_offset w t) 0 (transform (cur c))\<rparr>)) (Color ''#0b1c3f'')
          (js_mul (seg_base b) w)
          (js_sub (js_mul h (js_lit 0.65)) (js_mul (js_mul h (js_lit 0.5)) (seg_height b)))
          (js_mul (seg_width b) w) (js_mul (js_mul h (js_lit 0.5)) (seg_height b)),
        FillRect (compositing_of ((cur c)\<lparr>transform :=
            m_translate (- skyline_offset w t) 0 (transform (cur c))\<rparr>))
          (Color ''rgba(148, 197, 255, 0.06)'')
          (js_add (js_mul (seg_base b) w) (js_mul (js_mul (seg_width b) w) (js_lit 0.1)))
          (js_sub (js_mul h (js_lit 0.65)) (js_mul (js_mul h (js_lit 0.5)) (seg_height b)))
          (js_mul (js_mul (seg_width b) w) (js_lit 0.2))
          (js_mul (js_mul h (js_lit 0.5)) (seg_height b))]) sky)"
  by (simp add: painted_def drawSkyline_def Let_def forEach_def ops_forEach_building)


text \<open>
  An upper bound that is a double survives rounding. With it, the buildings
  \<open>generateSkyline\<close> produces end left of column 1087.5, whatever the random draws.
\<close>

lemma fl_le:
  assumes "0 \<le> v" and "v \<le> of_int m * 2 powi e" and "\<bar>m\<bar> < 2 ^ 53" and "- 1074 \<le> e"
  shows "fl v \<le> of_int m * 2 powi e"
  using fl_mono [OF assms(1,2)] fl_exact [OF assms(3,4)] by simp

lemma js_lit_bounds:
  "0 \<le> js_lit (8 / 100)" "js_lit (8 / 100) \<le> 11 / 128"
  "0 \<le> js_lit (12 / 100)" "js_lit (12 / 100) \<le> 1 / 8"
  "0 \<le> js_lit (1 / 10)" "js_lit (1 / 10) \<le> 1 / 8"
  "0 \<le> js_lit (2 / 10)" "js_lit (2 / 10) \<le> 1 / 4"
  using fl_le [of "8 / 100" 11 "- 7"] fl_le [of "12 / 100" 1 "- 3"]
    fl_le [of "1 / 10" 1 "- 3"] fl_le [of "2 / 10" 1 "- 2"]
  by (simp_all add: js_lit_def fl_nonneg)

lemma building_extent:
  assumes i: "i < 12" and r: "0 \<le> r" "r < 1"
  defines "x \<equiv> js_mul (js_div (real i) 12) 960"
    and "sw \<equiv> js_mul (js_add (js_lit (8 / 100)) (js_mul r (js_lit (12 / 100)))) 960"
  shows "x + sw \<le> 2175 / 2"
    and "js_add x (js_mul sw (js_lit (1 / 10))) + js_mul sw (js_lit (2 / 10)) \<le> 2175 / 2"
proof -
  note l = js_lit_bounds
  have i': "real i \<le> 11" using i by simp
  have b: "0 \<le> js_div (real i) 12" "js_div (real i) 12 \<le> 59 / 64"
    using fl_le [of "real i / 12" 59 "- 6"] i' by (simp_all add: js_div_def fl_nonneg)
  have x: "0 \<le> x" "x \<le> 885"
    using fl_le [of "js_div (real i) 12 * 960" 885 0] b by (simp_all add: x_def js_mul_def fl_nonneg)
  have "r * js_lit (12 / 100) \<le> 1 * (1 / 8)"
    using r l(3,4) by (intro mult_mono) simp_all
  then have p: "0 \<le> js_mul r (js_lit (12 / 100))" "js_mul r (js_lit (12 / 100)) \<le> 1 / 8"
    using fl_le [of "r * js_lit (12 / 100)" 1 "- 3"] r(1) l(3)
    by (simp_all add: js_mul_def fl_nonneg)
  have w: "0 \<le> js_add (js_lit (8 / 100)) (js_mul r (js_lit (12 / 100)))"
    "js_add (js_lit (8 / 100)) (js_mul r (js_lit (12 / 100))) \<le> 27 / 128"
    using fl_le [of "js_lit (8 / 100) + js_mul r (js_lit (12 / 100))" 27 "- 7"] p l(1,2)
    by (simp_all add: js_add_def fl_nonneg)
  have sw: "0 \<le> sw" "sw \<le> 405 / 2"
    using fl_le [of "js_add (js_lit (8 / 100)) (js_mul r (js_lit (12 / 100))) * 960" 405 "- 1"] w
    by (simp_all add: sw_def js_mul_def fl_nonneg)
  from x sw show "x + sw \<le> 2175 / 2" by simp
  have "sw * js_lit (1 / 10) \<le> 405 / 2 * (1 / 8)"
    using sw l(5,6) by (intro mult_mono) simp_all
  then have q: "0 \<le> js_mul sw (js_lit (1 / 10))" "js_mul sw (js_lit (1 / 10)) \<le> 405 / 16"
    using fl_le [of "sw * js_lit (1 / 10)" 405 "- 4"] sw(1) l(5)
    by (simp_all add: js_mul_def fl_nonneg)
  have x2: "js_add x (js_mul sw (js_lit (1 / 10))) \<le> 14565 / 16"
    using fl_le [of "x + js_mul sw (js_lit (1 / 10))" 14565 "- 4"] x q
    by (simp add: js_add_def)
  have "sw * js_lit (2 / 10) \<le> 405 / 2 * (1 / 4)"
    using sw l(7,8) by (intro mult_mono) simp_all
  then have w2: "js_mul sw (js_lit (2 / 10)) \<le> 405 / 8"
    using fl_le [of "sw * js_lit (2 / 10)" 405 "- 3"] sw(1) l(7)
    by (simp add: js_mul_def)
  from x2 w2 show
    "js_add x (js_mul sw (js_lit (1 / 10))) + js_mul sw (js_lit (2 / 10)) \<le> 2175 / 2"
    by simp
qed

lemma generateSkyline_extent:
  assumes "\<forall>n. 0 \<le> rnd n \<and> rnd n < 1" and "b \<in> set (generateSkyline rnd)"
  shows "js_mul (seg_base b) 960 + js_mul (seg_width b) 960 \<le> 2175 / 2"
    and "js_add (js_mul (seg_base b) 960) (js_mul (js_mul (seg_width b) 960) (js_lit (1 / 10)))
      + js_mul (js_mul (seg_width b) 960) (js_lit (2 / 10)) \<le> 2175 / 2"
proof -
  from assms(2) obtain i where i: "i < 12"
    and b: "seg_base b = js_div (real i) 12"
      "seg_width b = js_add (js_lit (8 / 100)) (js_mul (rnd (2 * i)) (js_lit (12 / 100)))"
    by (auto simp: generateSkyline_def SKYLINE_SEGMENTS_def)
  from assms(1) have r: "0 \<le> rnd (2 * i)" "rnd (2 * i) < 1" by simp_all
  show "js_mul (seg_base b) 960 + js_mul (seg_width b) 960 \<le> 2175 / 2"
    unfolding b by (rule building_extent(1) [OF i r])
  show "js_add (js_mul (seg_base b) 960) (js_mul (js_mul (seg_width b) 960) (js_lit (1 / 10)))
      + js_mul (js_mul (seg_width b) 960) (js_lit (2 / 10)) \<le> 2175 / 2"
    unfolding b by (rule building_extent(2) [OF i r])
qed

lemma rect_uncovered:
  assumes k: "0 < k" and X: "k * (2175 / 2 - off) \<le> X" and r: "x + w \<le> 2175 / 2"
    and K: "c_transform K = (k, 0, 0, k, - (k * off), 0)"
  shows "\<not> covers_column X (FillRect K st x y w h)"
proof -
  from r k have "k * (x + w) \<le> k * (2175 / 2)" by (intro mult_left_mono) simp_all
  with X have "k * (x + w) + - (k * off) \<le> X" by (simp add: algebra_simps)
  then show ?thesis by (simp add: K)
qed

text \<open>
  Under the translation by the offset, no rectangle of the skyline reaches a column at
  or right of \<open>1087.5 - offset\<close> (in units of the scale \<open>k\<close> of the context).
\<close>

lemma skyline_uncovered:
  assumes rnd: "\<forall>n. 0 \<le> rnd n \<and> rnd n < 1" and k: "0 < k"
    and tr: "transform (cur c) = (k, 0, 0, k, 0, 0)"
    and X: "k * (2175 / 2 - skyline_offset CANVAS_WIDTH t) \<le> X"
  shows "\<not> column_covered
    (painted c (drawSkyline c CANVAS_WIDTH CANVAS_HEIGHT (generateSkyline rnd) t)) X"
proof -
  let ?K = "compositing_of ((cur c)\<lparr>transform :=
    m_translate (- skyline_offset CANVAS_WIDTH t) 0 (transform (cur c))\<rparr>)"
  have K: "c_transform ?K = (k, 0, 0, k, - (k * skyline_offset CANVAS_WIDTH t), 0)"
    by (simp add: compositing_of_def m_translate_def tr)
  have "\<not> covers_column X (FillRect ?K st1 (js_mul (seg_base b) 960) y1
        (js_mul (seg_width b) 960) h1) \<and>
    \<not> covers_column X (FillRect ?K st2
        (js_add (js_mul (seg_base b) 960) (js_mul (js_mul (seg_width b) 960) (js_lit (1 / 10))))
        y2 (js_mul (js_mul (seg_width b) 960) (js_lit (2 / 10))) h2)"
    if "b \<in> set (generateSkyline rnd)" for b st1 st2 y1 y2 h1 h2
    using rect_uncovered [OF k X generateSkyline_extent(1) [OF rnd that] K]
      rect_uncovered [OF k X generateSkyline_extent(2) [OF rnd that] K]
    by blast
  then show ?thesis
    unfolding column_covered_def painted_drawSkyline list_ex_iff
    by (auto simp: CANVAS_WIDTH_def simp del: covers_column.simps)
qed

section \<open>Renderer: the skyline scroll\<close>

text \<open>The offset ten seconds into the animation.\<close>

lemma js_lit_fiftieth: "js_lit (1 / 50) = 5764607523034235 / 2 ^ 58"
  using fl_eval [of "- 6" "1 / 50"] by (simp add: js_lit_def round_even_def)

lemma js_lit_seven_twentieths: "js_lit (7 / 20) = 3152519739159347 / 2 ^ 53"
  using fl_eval [of "- 2" "7 / 20"] by (simp add: js_lit_def round_even_def)

lemma skyline_offset_10000: "skyline_offset CANVAS_WIDTH 10000 = 200"
proof -
  have "js_mul 10000 (js_lit (1 / 50)) = 200"
    using fl_eval [of 7 "10000 * (5764607523034235 / 2 ^ 58)"]
    by (simp add: js_mul_def js_lit_fiftieth round_even_def)
  moreover have "js_mul 960 (js_lit (7 / 20)) = 336"
    using fl_eval [of 8 "960 * (3152519739159347 / 2 ^ 53)"]
    by (simp add: js_mul_def js_lit_seven_twentieths round_even_def)
  moreover have "js_rem 200 336 = 200"
    by (rule js_rem_small) simp_all
  ultimately show ?thesis by (simp add: skyline_offset_def CANVAS_WIDTH_def)
qed

text \<open>After 16.8 seconds the offset is back at zero: the skyline jumps to where it began.\<close>

lemma skyline_offset_16800: "skyline_offset CANVAS_WIDTH 16800 = 0"
proof -
  have "js_mul 16800 (js_lit (1 / 50)) = 336"
    using fl_eval [of 8 "16800 * (5764607523034235 / 2 ^ 58)"]
    by (simp add: js_mul_def js_lit_fiftieth round_even_def)
  moreover have "js_mul 960 (js_lit (7 / 20)) = 336"
    using fl_eval [of 8 "960 * (3152519739159347 / 2 ^ 53)"]
    by (simp add: js_mul_def js_lit_seven_twentieths round_even_def)
  moreover have "js_rem 336 336 = 0"
    by (simp add: js_rem_def js_trunc_def)
  ultimately show ?thesis by (simp add: skyline_offset_def CANVAS_WIDTH_def)
qed

text \<open>
  Claim C8. The skyline is drawn under the leftward translation by
  \<open>offset(t) = (t * 0.02) % (width * 0.35)\<close>, but \<open>drawSkyline\<close> paints each building
  once, so the buildings do not cover the visible range at all times. Ten seconds into the
  animation the offset is 200 and, with every draw of \<open>Math.random()\<close> equal to 0.5, no
  rectangle of the skyline covers column 900 of the 960 columns of the canvas.
\<close>

theorem skyline_leaves_columns_bare:
  "skyline_offset CANVAS_WIDTH 10000 = 200 \<and> (0::real) \<le> 900 \<and> (900::real) < CANVAS_WIDTH \<and>
   \<not> column_covered (painted getContext (drawSkyline getContext CANVAS_WIDTH CANVAS_HEIGHT
     (generateSkyline (\<lambda>n. 1 / 2)) 10000)) 900"
proof -
  have tr: "transform (cur getContext) = (1, 0, 0, 1, 0, 0)"
    by (simp add: getContext_def default_state_def)
  have r: "\<forall>n::nat. (0::real) \<le> (\<lambda>n. 1 / 2) n \<and> (\<lambda>n. 1 / 2 :: real) n < 1" by simp
  have X: "1 * (2175 / 2 - skyline_offset CANVAS_WIDTH 10000) \<le> 900"
    by (simp add: skyline_offset_10000)
  have "\<not> column_covered (painted getContext (drawSkyline getContext CANVAS_WIDTH
      CANVAS_HEIGHT (generateSkyline (\<lambda>n. 1 / 2)) 10000)) 900"
    using r _ tr X by (rule skyline_uncovered) simp
  moreover have "(900::real) < CANVAS_WIDTH" by (simp add: CANVAS_WIDTH_def)
  ultimately show ?thesis using skyline_offset_10000 by simp
qed

end
